theory Spec2Isabelle
  imports Main "HOL-Library.Sublist" "HOL-Library.Multiset"
begin

section \<open>The file system seen by git-local-backup\<close>

text \<open>
  \<^verbatim>\<open>main.go\<close> talks to two directory trees: the projects directory, which it only reads,
  and the backup directory, which it reads once (\<^verbatim>\<open>filepath.WalkDir\<close>) and then changes
  (\<^verbatim>\<open>copyFile\<close>, \<^verbatim>\<open>os.Remove\<close>). A tree is a regular file with its bytes or a directory
  with its entries, in the order \<^verbatim>\<open>os.ReadDir\<close> lists them. Permission bits, symbolic
  links and special files are not modelled. The two trees are taken to be disjoint, and
  \<^verbatim>\<open>--projects-dir\<close> and \<^verbatim>\<open>--backup-dir\<close> to be absolute, so that the \<^verbatim>\<open>os.Chdir\<close> of the
  project loop changes no later path resolution. The loop that lists the files to back
  up resolves its paths in the whole file system, since a force-included path may lead
  out of the projects directory. The copy, delete and prune passes resolve a candidate
  inside the two trees, where \<^verbatim>\<open>..\<close> names no entry.
\<close>

datatype errno = ENOENT | ENOTEMPTY | ENOTDIR | EISDIR | EACCES

datatype node = File string | Dir "(string \<times> node) list"

text \<open>\<^verbatim>\<open>os.IsNotExist(err)\<close>: of the errors modelled, only \<^verbatim>\<open>ENOENT\<close> is "not exist".\<close>

definition IsNotExist :: "errno \<Rightarrow> bool" where
  "IsNotExist e = (e = ENOENT)"

subsection \<open>Paths\<close>

text \<open>
  The program's paths are strings. The kernel resolves one component after the other:
  \<open>splitPath\<close> cuts a string at the separator, \<open>comps\<close> drops the empty components
  and \<^verbatim>\<open>.\<close>, as path resolution does. Components are compared literally with the names in
  a directory. The paths the reconciler resolves come from \<^verbatim>\<open>filepath.Rel\<close> and
  \<^verbatim>\<open>filepath.Join\<close>, which leave no \<^verbatim>\<open>..\<close> inside a path; a \<^verbatim>\<open>..\<close> in front leaves the tree,
  and since no directory has an entry of that name it resolves to nothing here.
\<close>

fun splitPath :: "string \<Rightarrow> string list" where
  "splitPath [] = [[]]"
| "splitPath (c # cs) =
     (if c = CHR ''/'' then [] # splitPath cs
      else (case splitPath cs of [] \<Rightarrow> [[c]] | x # xs \<Rightarrow> (c # x) # xs))"

definition comps :: "string \<Rightarrow> string list" where
  "comps p = filter (\<lambda>c. c \<noteq> [] \<and> c \<noteq> ''.'') (splitPath p)"

fun joinSep :: "string list \<Rightarrow> string" where
  "joinSep [] = []"
| "joinSep [x] = x"
| "joinSep (x # y # ys) = x @ ''/'' @ joinSep (y # ys)"

text \<open>
  \<^verbatim>\<open>filepath.Rel(root, path)\<close> for a \<open>path\<close> that \<^verbatim>\<open>WalkDir\<close> reached from \<open>root\<close> through
  the components \<open>cs\<close>: the components joined by the separator, and \<^verbatim>\<open>.\<close> for the root
  itself.
\<close>

definition Rel :: "string list \<Rightarrow> string" where
  "Rel cs = (if cs = [] then ''.'' else joinSep cs)"

subsection \<open>System calls on a tree\<close>

text \<open>
  \<^verbatim>\<open>os.Stat\<close>: the node at a path, or the error of the resolution as Linux and macOS give
  it: \<^verbatim>\<open>ENOENT\<close> for a name that is not in its directory, \<^verbatim>\<open>ENOTDIR\<close> for a path that goes
  on below a regular file.
\<close>

fun stat :: "node \<Rightarrow> string list \<Rightarrow> errno + node"
  and stat_es :: "(string \<times> node) list \<Rightarrow> string \<Rightarrow> string list \<Rightarrow> errno + node" where
  "stat n [] = Inr n"
| "stat (File c) (k # ks) = Inl ENOTDIR"
| "stat (Dir es) (k # ks) = stat_es es k ks"
| "stat_es [] k ks = Inl ENOENT"
| "stat_es ((k', n) # es) k ks = (if k' = k then stat n ks else stat_es es k ks)"

text \<open>
  \<open>put t p v\<close> replaces (\<open>Some\<close>) or unlinks (\<open>None\<close>) the entry at \<open>p\<close> when its parent
  directory exists; a new entry goes to the end of its directory. The root has no entry
  to replace.
\<close>

fun put :: "node \<Rightarrow> string list \<Rightarrow> node option \<Rightarrow> node"
  and put_es :: "(string \<times> node) list \<Rightarrow> string \<Rightarrow> string list \<Rightarrow> node option
                 \<Rightarrow> (string \<times> node) list" where
  "put n [] v = n"
| "put (File c) (k # ks) v = File c"
| "put (Dir es) (k # ks) v = Dir (put_es es k ks v)"
| "put_es [] k ks v =
     (if ks = [] then (case v of None \<Rightarrow> [] | Some n \<Rightarrow> [(k, n)]) else [])"
| "put_es ((k', n) # es) k ks v =
     (if k' = k then
        (if ks = [] then (case v of None \<Rightarrow> es | Some n' \<Rightarrow> (k, n') # es)
         else (k', put n ks v) # es)
      else (k', n) # put_es es k ks v)"

text \<open>
  \<^verbatim>\<open>filepath.WalkDir\<close>: the root first, then each entry of a directory in listing order,
  a subdirectory with everything below it before the next entry. Each visit is the
  path's components from the root and \<^verbatim>\<open>entry.IsDir()\<close>.
\<close>

fun walk :: "string list \<Rightarrow> node \<Rightarrow> (string list \<times> bool) list"
  and walk_es :: "string list \<Rightarrow> (string \<times> node) list \<Rightarrow> (string list \<times> bool) list" where
  "walk p (File c) = [(p, False)]"
| "walk p (Dir es) = (p, True) # walk_es p es"
| "walk_es p [] = []"
| "walk_es p ((k, n) # es) = walk (p @ [k]) n @ walk_es p es"

text \<open>
  \<^verbatim>\<open>os.Remove\<close>: unlinks a file or removes an empty directory. \<open>denied\<close> stands for the
  paths the process may not change (the environment's permissions).
\<close>

definition os_Remove :: "(string list \<Rightarrow> bool) \<Rightarrow> node \<Rightarrow> string list \<Rightarrow> errno option \<times> node" where
  "os_Remove denied t p =
     (case stat t p of
        Inl e \<Rightarrow> (Some e, t)
      | Inr (File c) \<Rightarrow> if denied p then (Some EACCES, t) else (None, put t p None)
      | Inr (Dir es) \<Rightarrow>
          if es \<noteq> [] then (Some ENOTEMPTY, t)
          else if denied p then (Some EACCES, t)
          else (None, put t p None))"

text \<open>
  \<^verbatim>\<open>os.MkdirAll\<close>: creates every missing directory on the way to \<open>pre @ ks\<close>, the
  outermost first; a regular file on the way is \<^verbatim>\<open>ENOTDIR\<close>.
\<close>

fun mkdirFrom :: "(string list \<Rightarrow> bool) \<Rightarrow> node \<Rightarrow> string list \<Rightarrow> string list
                  \<Rightarrow> errno option \<times> node" where
  "mkdirFrom denied t pre [] = (None, t)"
| "mkdirFrom denied t pre (k # ks) =
     (case stat t (pre @ [k]) of
        Inr (Dir es) \<Rightarrow> mkdirFrom denied t (pre @ [k]) ks
      | Inr (File c) \<Rightarrow> (Some ENOTDIR, t)
      | Inl e \<Rightarrow>
          if e = ENOENT then
            (if denied (pre @ [k]) then (Some EACCES, t)
             else mkdirFrom denied (put t (pre @ [k]) (Some (Dir []))) (pre @ [k]) ks)
          else (Some e, t))"

definition os_MkdirAll :: "(string list \<Rightarrow> bool) \<Rightarrow> node \<Rightarrow> string list \<Rightarrow> errno option \<times> node" where
  "os_MkdirAll denied t p = mkdirFrom denied t [] p"

text \<open>\<^verbatim>\<open>os.Create\<close>: creates or truncates the regular file at \<open>p\<close>.\<close>

definition os_Create :: "(string list \<Rightarrow> bool) \<Rightarrow> node \<Rightarrow> string list \<Rightarrow> errno option \<times> node" where
  "os_Create denied t p =
     (case stat t (butlast p) of
        Inl e \<Rightarrow> (Some e, t)
      | Inr (File c) \<Rightarrow> (Some ENOTDIR, t)
      | Inr (Dir es) \<Rightarrow>
          (case stat t p of
             Inr (Dir es') \<Rightarrow> (Some EISDIR, t)
           | Inr (File c) \<Rightarrow> if denied p then (Some EACCES, t) else (None, put t p (Some (File [])))
           | Inl e \<Rightarrow> if denied p then (Some EACCES, t) else (None, put t p (Some (File [])))))"

section \<open>The Reconciler\<close>

text \<open>
  What the run is given and does not change: the projects tree, the paths the process may
  not change in the backup tree, the candidates on which the external comparison command
  fails, the choices of the Go runtime for the order of the \<^verbatim>\<open>range\<close> over the map of
  backup files, and the \<^verbatim>\<open>--dry-run\<close> flag.
\<close>

record env =
  projects :: node
  denied :: "string list \<Rightarrow> bool"
  diffFails :: "string \<Rightarrow> bool"
  rangeSeed :: "nat list"
  dryRun :: bool

text \<open>
  A line of standard output: the two header lines of a dry run, \<^verbatim>\<open>+ path\<close>, \<^verbatim>\<open>- path\<close>, and
  a printed error. \<open>call\<close> is a call that changes the backup tree, named by the path
  relative to the backup directory; \<open>calls\<close> below logs them in the order they are made.
\<close>

datatype line = Header | Blank | Plus string | Minus string | ErrLine errno

datatype call = CopyFile string | Remove string

record state =
  backupTree :: node
  backedUpFileRelPaths :: "string list"
  backedUpDirRelPaths :: "string list"
  stdout :: "line list"
  calls :: "call list"

text \<open>
  \<^verbatim>\<open>backedUpFileRelPaths\<close> is a Go map used as a set; here it is a list without
  repetitions: \<^verbatim>\<open>m[k] = struct{}{}\<close> is \<open>List.insert\<close> and \<^verbatim>\<open>delete(m, k)\<close> is \<open>removeAll\<close>.

  \<^verbatim>\<open>range m\<close> visits every key once, in an order Go leaves open and that changes from one
  loop to the next. \<open>permute ns xs\<close> is the keys \<open>xs\<close> in the order the choices \<open>ns\<close> pick:
  each number picks the next key among those not yet visited, and when the numbers run
  out the rest follows as it is. Every order of the keys is \<open>permute ns xs\<close> for some \<open>ns\<close>.
\<close>

fun permute :: "nat list \<Rightarrow> 'a list \<Rightarrow> 'a list" where
  "permute [] xs = xs"
| "permute (n # ns) [] = []"
| "permute (n # ns) (x # xs) =
     (let i = n mod length (x # xs)
      in ((x # xs) ! i) # permute ns (take i (x # xs) @ drop (Suc i) (x # xs)))"

subsection \<open>Reading the backup directory (lines 97-117)\<close>

text \<open>
  The callback of \<^verbatim>\<open>filepath.WalkDir\<close>, on one visit. An error of the walk (a directory
  that cannot be read) ends the run in the source; the trees here are always readable.
\<close>

definition visit :: "string list \<times> string list \<Rightarrow> string list \<times> bool \<Rightarrow> string list \<times> string list" where
  "visit acc e =
     (case acc of (ds, fs) \<Rightarrow>
        (case e of (p, isDir) \<Rightarrow>
           if isDir then (ds @ [Rel p], fs) else (ds, List.insert (Rel p) fs)))"

definition snapshot :: "node \<Rightarrow> string list \<times> string list" where
  "snapshot t = foldl visit ([], []) (walk [] t)"

subsection \<open>\<^verbatim>\<open>copyFile\<close> (lines 281-322)\<close>

text \<open>
  \<open>srcPath\<close> is resolved in the projects tree and \<open>dstPath\<close> in the backup tree, both as
  components below the respective root; \<^verbatim>\<open>filepath.Dir\<close> is \<open>butlast\<close>. Reading a directory
  fails in \<^verbatim>\<open>io.Copy\<close>, after the destination was created. The final \<^verbatim>\<open>os.Chmod\<close> is not
  modelled.
\<close>

definition copyFile :: "env \<Rightarrow> node \<Rightarrow> string list \<Rightarrow> string list \<Rightarrow> errno option \<times> node" where
  "copyFile E t srcPath dstPath =
     (let dstDir = butlast dstPath;
          made = (case stat t dstDir of
                    Inl e \<Rightarrow> if IsNotExist e then os_MkdirAll (denied E) t dstDir else (None, t)
                  | Inr n \<Rightarrow> (None, t))
      in case made of
           (Some e, t1) \<Rightarrow> (Some e, t1)
         | (None, t1) \<Rightarrow>
             (case stat (projects E) srcPath of
                Inl e \<Rightarrow> (Some e, t1)
              | Inr src \<Rightarrow>
                  (case os_Create (denied E) t1 dstPath of
                     (Some e, t2) \<Rightarrow> (Some e, t2)
                   | (None, t2) \<Rightarrow>
                       (case src of
                          Dir es \<Rightarrow> (Some EISDIR, t2)
                        | File c \<Rightarrow> (None, put t2 dstPath (Some (File c)))))))"

subsection \<open>The copy/skip pass (lines 219-251)\<close>

text \<open>
  \<^verbatim>\<open>git --no-pager diff --no-index --name-only src dst\<close>, its standard output only (the
  program drops the error). Two readable regular files give the name when their bytes
  differ and nothing when they are the same; a command that fails, or that does not
  find two regular files, gives nothing.
\<close>

definition gitDiffNoIndex :: "env \<Rightarrow> node \<Rightarrow> string \<Rightarrow> string" where
  "gitDiffNoIndex E t p =
     (if diffFails E p then []
      else (case stat (projects E) (comps p) of
              Inr (File a) \<Rightarrow>
                (case stat t (comps p) of
                   Inr (File b) \<Rightarrow> if a = b then [] else p @ [CHR 0x0A]
                 | Inr (Dir es) \<Rightarrow> []
                 | Inl e \<Rightarrow> [])
            | Inr (Dir es) \<Rightarrow> []
            | Inl e \<Rightarrow> []))"

text \<open>\<^verbatim>\<open>_, err := os.Stat(projectFilePath); os.IsNotExist(err)\<close>\<close>

definition srcNotExist :: "env \<Rightarrow> string \<Rightarrow> bool" where
  "srcNotExist E p = (case stat (projects E) (comps p) of Inl e \<Rightarrow> IsNotExist e | Inr n \<Rightarrow> False)"

definition printErr :: "errno option \<Rightarrow> line list" where
  "printErr err = (case err of None \<Rightarrow> [] | Some e \<Rightarrow> [ErrLine e])"

text \<open>Lines 243-250: report the copy in a dry run, make it otherwise.\<close>

definition copyAction :: "env \<Rightarrow> string \<Rightarrow> state \<Rightarrow> state" where
  "copyAction E p s =
     (if dryRun E then s\<lparr>stdout := stdout s @ [Plus p]\<rparr>
      else (case copyFile E (backupTree s) (comps p) (comps p) of
              (err, t) \<Rightarrow> s\<lparr>backupTree := t,
                             stdout := stdout s @ printErr err,
                             calls := calls s @ [CopyFile p]\<rparr>))"

definition copyStep :: "env \<Rightarrow> string \<Rightarrow> state \<Rightarrow> state" where
  "copyStep E projectFileRelPath s =
     (if srcNotExist E projectFileRelPath then s
      else if projectFileRelPath \<in> set (backedUpFileRelPaths s) then
        (let s1 = s\<lparr>backedUpFileRelPaths := removeAll projectFileRelPath (backedUpFileRelPaths s)\<rparr>
         in if gitDiffNoIndex E (backupTree s1) projectFileRelPath = [] then s1
            else copyAction E projectFileRelPath s1)
      else copyAction E projectFileRelPath s)"

fun copyPass :: "env \<Rightarrow> string list \<Rightarrow> state \<Rightarrow> state" where
  "copyPass E [] s = s"
| "copyPass E (p # ps) s = copyPass E ps (copyStep E p s)"

subsection \<open>The delete pass (lines 254-263)\<close>

definition deleteStep :: "env \<Rightarrow> string \<Rightarrow> state \<Rightarrow> state" where
  "deleteStep E backupFileRelPath s =
     (if dryRun E then s\<lparr>stdout := stdout s @ [Minus backupFileRelPath]\<rparr>
      else (case os_Remove (denied E) (backupTree s) (comps backupFileRelPath) of
              (err, t) \<Rightarrow> s\<lparr>backupTree := t,
                             stdout := stdout s @ printErr err,
                             calls := calls s @ [Remove backupFileRelPath]\<rparr>))"

fun deleteLoop :: "env \<Rightarrow> string list \<Rightarrow> state \<Rightarrow> state" where
  "deleteLoop E [] s = s"
| "deleteLoop E (p # ps) s = deleteLoop E ps (deleteStep E p s)"

text \<open>\<^verbatim>\<open>for backupFileRelPath := range backedUpFileRelPaths\<close>\<close>

definition deletePass :: "env \<Rightarrow> state \<Rightarrow> state" where
  "deletePass E s = deleteLoop E (permute (rangeSeed E) (backedUpFileRelPaths s)) s"

subsection \<open>The prune pass (lines 266-276)\<close>

definition pruneStep :: "env \<Rightarrow> string \<Rightarrow> state \<Rightarrow> state" where
  "pruneStep E d s =
     (case os_Remove (denied E) (backupTree s) (comps d) of
        (err, t) \<Rightarrow>
          s\<lparr>backupTree := t,
            stdout := stdout s @
              (case err of None \<Rightarrow> [] | Some e \<Rightarrow> if \<not> IsNotExist e then [ErrLine e] else []),
            calls := calls s @ [Remove d]\<rparr>)"

text \<open>\<^verbatim>\<open>for i := len(backedUpDirRelPaths) - 1; i > 0; i--\<close>\<close>

fun pruneLoop :: "env \<Rightarrow> nat \<Rightarrow> state \<Rightarrow> state" where
  "pruneLoop E 0 s = s"
| "pruneLoop E (Suc i) s = pruneLoop E i (pruneStep E (backedUpDirRelPaths s ! Suc i) s)"

definition prunePass :: "env \<Rightarrow> state \<Rightarrow> state" where
  "prunePass E s =
     (if \<not> dryRun E then pruneLoop E (length (backedUpDirRelPaths s) - 1) s else s)"

subsection \<open>The run\<close>

definition initState :: "env \<Rightarrow> node \<Rightarrow> state" where
  "initState E t =
     (case snapshot t of (ds, fs) \<Rightarrow>
        \<lparr>backupTree = t, backedUpFileRelPaths = fs, backedUpDirRelPaths = ds,
         stdout = (if dryRun E then [Header, Blank] else []), calls = []\<rparr>)"

definition reconcile :: "env \<Rightarrow> string list \<Rightarrow> node \<Rightarrow> state" where
  "reconcile E projectFiles t =
     prunePass E (deletePass E (copyPass E projectFiles (initState E t)))"

section \<open>Example trees\<close>

text \<open>
  The scenario of the specification: project \<^verbatim>\<open>app\<close> has \<^verbatim>\<open>notes.txt\<close> with content \<^verbatim>\<open>a\<close>; the
  backup holds \<^verbatim>\<open>app/notes.txt\<close> with content \<^verbatim>\<open>b\<close> and the stale \<^verbatim>\<open>app/old.txt\<close>.
\<close>

definition exProjects :: node where
  "exProjects = Dir [(''app'', Dir [(''notes.txt'', File ''a'')])]"

definition exBackup :: node where
  "exBackup = Dir [(''app'', Dir [(''notes.txt'', File ''b''), (''old.txt'', File ''x'')])]"

definition exEnv :: env where
  "exEnv = \<lparr>projects = exProjects, denied = (\<lambda>p. False), diffFails = (\<lambda>p. False),
            rangeSeed = [], dryRun = False\<rparr>"

definition exState :: state where
  "exState = \<lparr>backupTree = exBackup,
              backedUpFileRelPaths = [''app/old.txt'', ''app/notes.txt''],
              backedUpDirRelPaths = [''.'', ''app''],
              stdout = [], calls = []\<rparr>"

text \<open>
  A directory of the project that became a regular file: \<^verbatim>\<open>app/a\<close> is now a file, git
  still lists the deleted \<^verbatim>\<open>app/a/b\<close>, and the backup holds \<^verbatim>\<open>app/a/b\<close> from an earlier
  run.
\<close>

definition dirFileProjects :: node where
  "dirFileProjects = Dir [(''app'', Dir [(''a'', File ''now a file'')])]"

definition dirFileBackup :: node where
  "dirFileBackup = Dir [(''app'', Dir [(''a'', Dir [(''b'', File ''old'')])])]"

definition dirFileEnv :: env where
  "dirFileEnv = \<lparr>projects = dirFileProjects, denied = (\<lambda>p. False), diffFails = (\<lambda>p. False),
                rangeSeed = [], dryRun = False\<rparr>"

section \<open>Well-formed trees\<close>

text \<open>
  In a directory of a real file system every name is non-empty, is not \<^verbatim>\<open>.\<close>, holds no
  separator, and occurs once.
\<close>

definition okName :: "string \<Rightarrow> bool" where
  "okName k = (k \<noteq> [] \<and> k \<noteq> ''.'' \<and> CHR ''/'' \<notin> set k)"

fun wfTree :: "node \<Rightarrow> bool" and wfEntries :: "(string \<times> node) list \<Rightarrow> bool" where
  "wfTree (File c) = True"
| "wfTree (Dir es) = wfEntries es"
| "wfEntries [] = True"
| "wfEntries ((k, n) # es) = (okName k \<and> k \<notin> fst ` set es \<and> wfTree n \<and> wfEntries es)"

section \<open>Notions used to state the properties\<close>

text \<open>The directories and the regular files of a walk, each list in visiting order.\<close>

definition walkDirs :: "string list \<Rightarrow> node \<Rightarrow> string list list" where
  "walkDirs pre t = map fst (filter snd (walk pre t))"

definition walkFiles :: "string list \<Rightarrow> node \<Rightarrow> string list list" where
  "walkFiles pre t = map fst (filter (\<lambda>e. \<not> snd e) (walk pre t))"

definition isDir :: "node \<Rightarrow> bool" where
  "isDir n = (case n of Dir es \<Rightarrow> True | File c \<Rightarrow> False)"

text \<open>
  A path in the form \<^verbatim>\<open>filepath.Rel\<close> and \<^verbatim>\<open>filepath.Join\<close> return: no empty component and no
  \<^verbatim>\<open>.\<close> inside, no separator at the end. Two such strings name the same entry only when
  they are equal.
\<close>

definition canonical :: "string \<Rightarrow> bool" where
  "canonical p = (Rel (comps p) = p)"

text \<open>The line a dry run prints for a call of a live run.\<close>

definition report :: "call \<Rightarrow> line" where
  "report c = (case c of CopyFile p \<Rightarrow> Plus p | Remove p \<Rightarrow> Minus p)"

text \<open>
  The relation between a dry run and a live run that started together: the same
  bookkeeping, and every path still in the backup file set is a regular file with the
  same bytes in both backup trees.
\<close>

definition sim :: "state \<Rightarrow> state \<Rightarrow> bool" where
  "sim sd sl \<longleftrightarrow>
     backedUpFileRelPaths sd = backedUpFileRelPaths sl \<and>
     backedUpDirRelPaths sd = backedUpDirRelPaths sl \<and>
     wfTree (backupTree sl) \<and>
     (\<forall>p \<in> set (backedUpFileRelPaths sl). canonical p \<and>
        (\<exists>c. stat (backupTree sl) (comps p) = Inr (File c) \<and>
             stat (backupTree sd) (comps p) = Inr (File c)))"


text \<open>
  What the delete pass prints for a list of regular files: one error line for each file
  the process may not remove.
\<close>

definition removeErrs :: "env \<Rightarrow> string list \<Rightarrow> line list" where
  "removeErrs E ps = concat (map (\<lambda>p. if denied E (comps p) then [ErrLine EACCES] else []) ps)"

text \<open>
  A backup with two stale files, and an environment in which \<^verbatim>\<open>app/older.txt\<close> cannot be
  removed.
\<close>

definition staleBackup :: node where
  "staleBackup = Dir [(''app'', Dir [(''notes.txt'', File ''b''), (''old.txt'', File ''x''),
                                    (''older.txt'', File ''y'')])]"

definition deniedEnv :: env where
  "deniedEnv = \<lparr>projects = exProjects, denied = (\<lambda>p. p = [''app'', ''older.txt'']),
               diffFails = (\<lambda>p. False), rangeSeed = [], dryRun = False\<rparr>"


text \<open>The directories among the entries of a directory, as \<open>walk_es\<close> visits them.\<close>

definition walkDirs_es :: "string list \<Rightarrow> (string \<times> node) list \<Rightarrow> string list list" where
  "walkDirs_es pre es = map fst (filter snd (walk_es pre es))"

text \<open>A backup with nested directories.\<close>

definition nestedBackup :: node where
  "nestedBackup = Dir [(''a'', Dir [(''b'', Dir [(''f'', File ''1'')]), (''x'', File ''2'')]),
                       (''c'', Dir [])]"

section \<open>The list of files to back up (lines 123-208)\<close>

subsection \<open>Strings\<close>

text \<open>\<^verbatim>\<open>strings.Split(s, sep)\<close> for a one-character separator.\<close>

fun splitOn :: "char \<Rightarrow> string \<Rightarrow> string list" where
  "splitOn sep [] = [[]]"
| "splitOn sep (c # cs) =
     (if c = sep then [] # splitOn sep cs
      else (case splitOn sep cs of [] \<Rightarrow> [[c]] | x # xs \<Rightarrow> (c # x) # xs))"

text \<open>
  \<^verbatim>\<open>strings.TrimSpace\<close> cuts the white space of Unicode (\<^verbatim>\<open>unicode.IsSpace\<close>) from both ends
  of a string, which Go holds as UTF-8 bytes. \<open>spaceRunes\<close> is the encodings of the white
  space characters: U+0009 to U+000D, U+0020, U+0085, U+00A0, U+1680, U+2000 to U+200A,
  U+2028, U+2029, U+202F, U+205F and U+3000. The bytes at the front of a string decode to
  one of these characters exactly when one of the encodings is a prefix of the string,
  and the last character is one of them exactly when one of the encodings is a suffix;
  \<open>leadingSpace\<close> and \<open>trailingSpace\<close> are the number of bytes of that encoding, and 0
  when there is none.
\<close>

definition spaceRunes :: "string list" where
  "spaceRunes =
     [[CHR 0x09], [CHR 0x0A], [CHR 0x0B], [CHR 0x0C], [CHR 0x0D], [CHR 0x20],
      [CHR 0xC2, CHR 0x85], [CHR 0xC2, CHR 0xA0],
      [CHR 0xE1, CHR 0x9A, CHR 0x80],
      [CHR 0xE2, CHR 0x80, CHR 0x80], [CHR 0xE2, CHR 0x80, CHR 0x81],
      [CHR 0xE2, CHR 0x80, CHR 0x82], [CHR 0xE2, CHR 0x80, CHR 0x83],
      [CHR 0xE2, CHR 0x80, CHR 0x84], [CHR 0xE2, CHR 0x80, CHR 0x85],
      [CHR 0xE2, CHR 0x80, CHR 0x86], [CHR 0xE2, CHR 0x80, CHR 0x87],
      [CHR 0xE2, CHR 0x80, CHR 0x88], [CHR 0xE2, CHR 0x80, CHR 0x89],
      [CHR 0xE2, CHR 0x80, CHR 0x8A],
      [CHR 0xE2, CHR 0x80, CHR 0xA8], [CHR 0xE2, CHR 0x80, CHR 0xA9],
      [CHR 0xE2, CHR 0x80, CHR 0xAF],
      [CHR 0xE2, CHR 0x81, CHR 0x9F],
      [CHR 0xE3, CHR 0x80, CHR 0x80]]"

definition leadingSpace :: "string \<Rightarrow> nat" where
  "leadingSpace s = (case filter (\<lambda>e. prefix e s) spaceRunes of [] \<Rightarrow> 0 | e # es \<Rightarrow> length e)"

definition trailingSpace :: "string \<Rightarrow> nat" where
  "trailingSpace s = (case filter (\<lambda>e. suffix e s) spaceRunes of [] \<Rightarrow> 0 | e # es \<Rightarrow> length e)"

lemma spaceRunes_ne: "e \<in> set spaceRunes \<Longrightarrow> e \<noteq> [] \<and> CHR ''/'' \<notin> set e"
  by (auto simp: spaceRunes_def)

lemma leadingSpace_cases:
  "(leadingSpace s = 0 \<and> (\<forall>e \<in> set spaceRunes. \<not> prefix e s))
   \<or> (\<exists>e \<in> set spaceRunes. prefix e s \<and> leadingSpace s = length e)"
proof (cases "filter (\<lambda>e. prefix e s) spaceRunes")
  case Nil
  then have "\<forall>e \<in> set spaceRunes. \<not> prefix e s" by (simp add: filter_empty_conv)
  then show ?thesis using Nil by (simp add: leadingSpace_def)
next
  case (Cons e es)
  then have "e \<in> set (filter (\<lambda>e. prefix e s) spaceRunes)" by simp
  then have "e \<in> set spaceRunes" "prefix e s" by auto
  moreover have "leadingSpace s = length e" using Cons by (simp add: leadingSpace_def)
  ultimately show ?thesis by blast
qed

lemma trailingSpace_cases:
  "(trailingSpace s = 0 \<and> (\<forall>e \<in> set spaceRunes. \<not> suffix e s))
   \<or> (\<exists>e \<in> set spaceRunes. suffix e s \<and> trailingSpace s = length e)"
proof (cases "filter (\<lambda>e. suffix e s) spaceRunes")
  case Nil
  then have "\<forall>e \<in> set spaceRunes. \<not> suffix e s" by (simp add: filter_empty_conv)
  then show ?thesis using Nil by (simp add: trailingSpace_def)
next
  case (Cons e es)
  then have "e \<in> set (filter (\<lambda>e. suffix e s) spaceRunes)" by simp
  then have "e \<in> set spaceRunes" "suffix e s" by auto
  moreover have "trailingSpace s = length e" using Cons by (simp add: trailingSpace_def)
  ultimately show ?thesis by blast
qed

lemma leadingSpace_bounds: "leadingSpace s \<noteq> 0 \<Longrightarrow> leadingSpace s \<le> length s \<and> s \<noteq> []"
  using leadingSpace_cases[of s] spaceRunes_ne by (auto simp: prefix_def)

lemma trailingSpace_bounds: "trailingSpace s \<noteq> 0 \<Longrightarrow> trailingSpace s \<le> length s \<and> s \<noteq> []"
  using trailingSpace_cases[of s] spaceRunes_ne by (auto simp: suffix_def)

function trimLeft :: "string \<Rightarrow> string" where
  "trimLeft s = (if leadingSpace s = 0 then s else trimLeft (drop (leadingSpace s) s))"
  by pat_completeness auto
termination
  by (relation "measure length") (use leadingSpace_bounds in auto)

function trimRight :: "string \<Rightarrow> string" where
  "trimRight s = (if trailingSpace s = 0 then s else trimRight (take (length s - trailingSpace s) s))"
  by pat_completeness auto
termination
  by (relation "measure length") (use trailingSpace_bounds in auto)

declare trimLeft.simps [simp del] trimRight.simps [simp del]

definition TrimSpace :: "string \<Rightarrow> string" where
  "TrimSpace s = trimRight (trimLeft s)"

subsection \<open>\<^verbatim>\<open>filepath.Clean\<close> and \<^verbatim>\<open>filepath.Join\<close>\<close>

text \<open>
  \<open>collapse\<close> removes each \<^verbatim>\<open>..\<close> with the component before it; \<open>acc\<close> is the components
  kept so far, the last one first. A \<^verbatim>\<open>..\<close> with nothing before it stays in a relative
  path and is dropped at the root.
\<close>

fun collapse :: "bool \<Rightarrow> string list \<Rightarrow> string list \<Rightarrow> string list" where
  "collapse rooted acc [] = rev acc"
| "collapse rooted acc (c # cs) =
     (if c = ''..'' then
        (case acc of
           [] \<Rightarrow> if rooted then collapse rooted [] cs else collapse rooted [''..''] cs
         | a # acc' \<Rightarrow>
             if a = ''..'' then collapse rooted (''..'' # acc) cs else collapse rooted acc' cs)
      else collapse rooted (c # acc) cs)"

definition Clean :: "string \<Rightarrow> string" where
  "Clean s =
     (if s = [] then ''.''
      else if hd s = CHR ''/'' then CHR ''/'' # joinSep (collapse True [] (comps s))
      else Rel (collapse False [] (comps s)))"

text \<open>\<^verbatim>\<open>filepath.Join(a, b)\<close>: the non-empty elements joined by the separator, cleaned.\<close>

definition Join :: "string \<Rightarrow> string \<Rightarrow> string" where
  "Join a b =
     (if a = [] then (if b = [] then [] else Clean b)
      else if b = [] then Clean a
      else Clean (a @ ''/'' @ b))"

subsection \<open>The git commands\<close>

text \<open>
  \<^verbatim>\<open>exec.Command(...).Output()\<close> returns the standard output and an error: the command
  could not be started, or it exited with a status other than 0. What git answers is not
  computed here; it is given by the environment, per project.
\<close>

datatype execError = StartFailed | ExitStatus nat

type_synonym cmdOutput = "string \<times> execError option"

record git =
  lsFilesOthers :: cmdOutput
  branchShowCurrent :: cmdOutput
  diffNameOnly :: "string \<Rightarrow> cmdOutput"

datatype fatal = PanicExec execError | PanicStat errno

subsection \<open>The force-included paths (lines 171-198)\<close>

text \<open>
  The file system from its root, and the components of the absolute path of
  \<^verbatim>\<open>--projects-dir\<close> in it.
\<close>

record disk =
  fsRoot :: node
  projectsPath :: "string list"

text \<open>
  \<open>forceIncludedPathOf d name rel\<close> is \<^verbatim>\<open>filepath.Join(projectDirPath, rel)\<close> for the project
  \<open>name\<close>: the components of the projects directory, the name and the components of \<open>rel\<close>,
  with each \<^verbatim>\<open>..\<close> collapsed; at the root a \<^verbatim>\<open>..\<close> stays at the root.

  \<open>relParts base path\<close> is \<^verbatim>\<open>filepath.Rel(base, path)\<close> on components: what the two have in
  common at the front is dropped, and a \<^verbatim>\<open>..\<close> leads out of each remaining component of
  \<open>base\<close>.
\<close>

definition forceIncludedPathOf :: "disk \<Rightarrow> string \<Rightarrow> string \<Rightarrow> string list" where
  "forceIncludedPathOf d name rel = collapse True [] (projectsPath d @ name # comps rel)"

fun relParts :: "string list \<Rightarrow> string list \<Rightarrow> string list" where
  "relParts [] ts = ts"
| "relParts (b # bs) [] = replicate (length (b # bs)) ''..''"
| "relParts (b # bs) (t # ts) =
     (if b = t then relParts bs ts else replicate (length (b # bs)) ''..'' @ t # ts)"

definition forceInclude :: "disk \<Rightarrow> string \<Rightarrow> string \<Rightarrow> string list \<Rightarrow> fatal + string list" where
  "forceInclude d name forceIncludedRelPath includedFiles =
     (let forceIncludedPath = forceIncludedPathOf d name forceIncludedRelPath
      in case stat (fsRoot d) forceIncludedPath of
           Inl e \<Rightarrow> if IsNotExist e then Inr includedFiles else Inl (PanicStat e)
         | Inr info \<Rightarrow>
             if isDir info then
               Inr (includedFiles @
                    map (\<lambda>path. Rel (relParts (projectsPath d @ [name]) path))
                        (walkFiles forceIncludedPath info))
             else Inr (includedFiles @ [forceIncludedRelPath]))"

fun forceIncludeAll :: "disk \<Rightarrow> string \<Rightarrow> string list \<Rightarrow> string list \<Rightarrow> fatal + string list" where
  "forceIncludeAll d name [] includedFiles = Inr includedFiles"
| "forceIncludeAll d name (r # rs) includedFiles =
     (case forceInclude d name r includedFiles of
        Inl e \<Rightarrow> Inl e
      | Inr includedFiles' \<Rightarrow> forceIncludeAll d name rs includedFiles')"

subsection \<open>Adding the project directory (lines 201-207)\<close>

fun addProjectDir :: "string \<Rightarrow> string list \<Rightarrow> string list \<Rightarrow> string list" where
  "addProjectDir name [] projectFiles = projectFiles"
| "addProjectDir name (includedFile # rest) projectFiles =
     (if TrimSpace includedFile = [] then addProjectDir name rest projectFiles
      else addProjectDir name rest (projectFiles @ [Join name includedFile]))"

subsection \<open>One project (lines 140-207)\<close>

definition projectIncluded :: "git \<Rightarrow> string \<Rightarrow> disk \<Rightarrow> string \<Rightarrow> string list \<Rightarrow> fatal + string list" where
  "projectIncluded g remoteBranch d name forceIncludedRelPaths =
     (case lsFilesOthers g of
        (untrackedFilesStdout, Some err) \<Rightarrow> Inl (PanicExec err)
      | (untrackedFilesStdout, None) \<Rightarrow>
          (case branchShowCurrent g of
             (branchNameStdout, Some err) \<Rightarrow> Inl (PanicExec err)
           | (branchNameStdout, None) \<Rightarrow>
               (let includedFiles = splitOn (CHR 0x0A) untrackedFilesStdout;
                    branchName = TrimSpace branchNameStdout;
                    includedFiles' =
                      (if branchName \<noteq> [] then
                         includedFiles @
                           splitOn (CHR 0x0A) (fst (diffNameOnly g (remoteBranch @ ''/'' @ branchName)))
                       else includedFiles)
                in forceIncludeAll d name forceIncludedRelPaths includedFiles')))"

definition processProject ::
  "git \<Rightarrow> string \<Rightarrow> string list \<Rightarrow> disk \<Rightarrow> string \<Rightarrow> string list \<Rightarrow> fatal + string list" where
  "processProject g remoteBranch forceIncludedRelPaths d name projectFiles =
     (case projectIncluded g remoteBranch d name forceIncludedRelPaths of
        Inl e \<Rightarrow> Inl e
      | Inr includedFiles \<Rightarrow> Inr (addProjectDir name includedFiles projectFiles))"

text \<open>
  The loop over the entries of the projects directory, each with the answers of git in
  that project: an entry that is not a directory, or has no \<^verbatim>\<open>.git\<close>, is passed over.
\<close>

fun visitProjects ::
  "(string \<Rightarrow> git) \<Rightarrow> string \<Rightarrow> string list \<Rightarrow> disk \<Rightarrow> (string \<times> node) list \<Rightarrow> string list
     \<Rightarrow> fatal + string list" where
  "visitProjects gits remoteBranch forced d [] projectFiles = Inr projectFiles"
| "visitProjects gits remoteBranch forced d ((name, projectDir) # rest) projectFiles =
     (if \<not> isDir projectDir then
        visitProjects gits remoteBranch forced d rest projectFiles
      else if (case stat (fsRoot d) (projectsPath d @ [name, ''.git'']) of
                 Inl e \<Rightarrow> IsNotExist e | Inr n \<Rightarrow> False) then
        visitProjects gits remoteBranch forced d rest projectFiles
      else (case processProject (gits name) remoteBranch forced d name projectFiles of
              Inl f \<Rightarrow> Inl f
            | Inr projectFiles' \<Rightarrow>
                visitProjects gits remoteBranch forced d rest projectFiles'))"

text \<open>\<^verbatim>\<open>os.ReadDir(*projectsPath)\<close> and the loop; an error of \<^verbatim>\<open>ReadDir\<close> ends the run.\<close>

definition listProjectFiles ::
  "(string \<Rightarrow> git) \<Rightarrow> string \<Rightarrow> string list \<Rightarrow> disk \<Rightarrow> fatal + string list" where
  "listProjectFiles gits remoteBranch forced d =
     (case stat (fsRoot d) (projectsPath d) of
        Inl e \<Rightarrow> Inl (PanicStat e)
      | Inr (File c) \<Rightarrow> Inl (PanicStat ENOTDIR)
      | Inr (Dir projectDirEntries) \<Rightarrow>
          visitProjects gits remoteBranch forced d projectDirEntries [])"

section \<open>Example projects\<close>

text \<open>
  Answers of git in a project with the untracked \<^verbatim>\<open>notes.txt\<close> on branch \<^verbatim>\<open>main\<close>: the first
  with nothing unpushed, the second with a \<^verbatim>\<open>git diff\<close> that could not be started.
\<close>

definition cleanGit :: git where
  "cleanGit = \<lparr>lsFilesOthers = (''notes.txt'' @ [CHR 0x0A], None),
               branchShowCurrent = (''main'' @ [CHR 0x0A], None),
               diffNameOnly = (\<lambda>ref. ([], None))\<rparr>"


text \<open>
  Three projects directories: a repository \<^verbatim>\<open>app\<close>; the same with a file whose name is
  one space beside it; and \<^verbatim>\<open>app\<close> as a linked worktree, where \<^verbatim>\<open>.git\<close> is a regular file.
\<close>

definition appProjects :: node where
  "appProjects = Dir [(''app'', Dir [(''.git'', Dir [(''config'', File ''c'')]),
                                    (''notes.txt'', File ''a'')])]"

definition spaceProjects :: node where
  "spaceProjects = Dir [('' '', File ''x''),
                        (''app'', Dir [(''.git'', Dir [(''config'', File ''c'')]),
                                      (''notes.txt'', File ''a'')])]"

definition worktreeProjects :: node where
  "worktreeProjects = Dir [(''app'', Dir [(''.git'', File ''gitdir: elsewhere''),
                                         (''notes.txt'', File ''a'')])]"

text \<open>
  The file systems that hold them as \<^verbatim>\<open>/home\<close>, and one with a file outside the projects
  directory.
\<close>

definition appDisk :: disk where
  "appDisk = \<lparr>fsRoot = Dir [(''home'', appProjects)], projectsPath = [''home'']\<rparr>"

definition spaceDisk :: disk where
  "spaceDisk = \<lparr>fsRoot = Dir [(''home'', spaceProjects)], projectsPath = [''home'']\<rparr>"

definition worktreeDisk :: disk where
  "worktreeDisk = \<lparr>fsRoot = Dir [(''home'', worktreeProjects)], projectsPath = [''home'']\<rparr>"

definition outsideDisk :: disk where
  "outsideDisk = \<lparr>fsRoot = Dir [(''etc'', Dir [(''key'', File ''k'')]), (''home'', appProjects)],
                 projectsPath = [''home'']\<rparr>"

text \<open>
  The union the last loop of a project goes through: the lines of the untracked list, the
  lines of the unpushed list when there is a branch, and what the force-included paths
  added.
\<close>

definition unionOf :: "git \<Rightarrow> string \<Rightarrow> string list \<Rightarrow> string list" where
  "unionOf g remoteBranch forceIncluded =
     splitOn (CHR 0x0A) (fst (lsFilesOthers g))
     @ (if TrimSpace (fst (branchShowCurrent g)) \<noteq> []
        then splitOn (CHR 0x0A)
               (fst (diffNameOnly g (remoteBranch @ ''/'' @ TrimSpace (fst (branchShowCurrent g)))))
        else [])
     @ forceIncluded"

text \<open>
  The projects directory \<open>appProjects\<close> as the reconciler's environment, and its backup
  after a run.
\<close>

definition appEnv :: env where
  "appEnv = \<lparr>projects = appProjects, denied = (\<lambda>p. False), diffFails = (\<lambda>p. False),
             rangeSeed = [], dryRun = False\<rparr>"

definition appBackedUp :: node where
  "appBackedUp = Dir [(''app'', Dir [(''notes.txt'', File ''a'')])]"

section \<open>Facts about the system calls\<close>

subsection \<open>Resolution\<close>

lemma stat_file_below:
  "stat t p = Inr (File c) \<Longrightarrow> stat t (p @ k # ks) = Inl ENOTDIR"
  "stat_es es k0 p0 = Inr (File c) \<Longrightarrow> stat_es es k0 (p0 @ k # ks) = Inl ENOTDIR"
  by (induction t p and es k0 p0 rule: stat_stat_es.induct) (auto split: if_splits)

lemma stat_prefix_exists:
  "stat t (p @ r) = Inr n \<Longrightarrow> \<exists>m. stat t p = Inr m"
  "stat_es es k0 (p0 @ r) = Inr n \<Longrightarrow> \<exists>m. stat_es es k0 p0 = Inr m"
  by (induction t p and es k0 p0 rule: stat_stat_es.induct) (auto split: if_splits)

lemma stat_put_file:
  "stat t q = Inr (File c) \<Longrightarrow> \<not> prefix p q \<Longrightarrow> stat (put t p v) q = Inr (File c)"
  "stat_es es k ks = Inr (File c) \<Longrightarrow> \<not> prefix (k' # ks') (k # ks)
     \<Longrightarrow> stat_es (put_es es k' ks' v) k ks = Inr (File c)"
proof (induction t p v and es k' ks' v arbitrary: q and k ks rule: put_put_es.induct)
  case (1 n v)
  then show ?case by simp
next
  case (2 c k ks v)
  then show ?case by simp
next
  case (3 es k ks v)
  then show ?case by (cases q) auto
next
  case (4 k ks v)
  then show ?case by simp
next
  case (5 k' n es k ks v)
  then show ?case by (auto split: if_splits option.splits)
qed

lemma stat_empty_dir_below:
  "stat t p = Inr (Dir []) \<Longrightarrow> stat t (p @ k # ks) = Inl ENOENT"
  "stat_es es k0 p0 = Inr (Dir []) \<Longrightarrow> stat_es es k0 (p0 @ k # ks) = Inl ENOENT"
  by (induction t p and es k0 p0 rule: stat_stat_es.induct) (auto split: if_splits)

lemma stat_put_Some:
  "stat t (butlast p) = Inr (Dir es0) \<Longrightarrow> p \<noteq> [] \<Longrightarrow> stat (put t p (Some n)) p = Inr n"
  "stat_es es k (butlast ks) = Inr (Dir es0) \<Longrightarrow> ks \<noteq> [] \<Longrightarrow> stat_es (put_es es k ks (Some n)) k ks = Inr n"
proof (induction t p "Some n" and es k ks "Some n" rule: put_put_es.induct)
  case (3 es k ks)
  then show ?case 
  proof (cases ks)
    case Nil
    then show ?thesis by (induction es) auto
  next
    case (Cons a list)
    with 3 show ?thesis by simp
  qed
next
  case (5 k' n' es k ks)
  then show ?case by (cases ks; cases "butlast ks") (auto split: if_splits)
qed (auto split: if_splits)

lemma not_prefix_of_file:
  assumes "stat t q = Inr (File c)" and "q \<noteq> p"
    and "(\<exists>c'. stat t p = Inr (File c')) \<or> isl (stat t p) \<or> stat t p = Inr (Dir [])"
  shows "\<not> prefix p q"
proof
  assume "prefix p q"
  with \<open>q \<noteq> p\<close> obtain k ks where q: "q = p @ k # ks"
    by (metis append_Nil2 neq_Nil_conv prefix_def)
  from assms(3) show False
  proof (elim disjE exE)
    fix c' assume "stat t p = Inr (File c')"
    then show False using stat_file_below(1)[of t p c' k ks] assms(1) q by simp
  next
    assume "isl (stat t p)"
    then show False using stat_prefix_exists(1)[of t p "k # ks"] assms(1) q by auto
  next
    assume "stat t p = Inr (Dir [])"
    then show False using stat_empty_dir_below(1)[of t p k ks] assms(1) q by simp
  qed
qed

subsection \<open>Well-formedness and removal\<close>

lemma stat_es_absent: "k \<notin> fst ` set es \<Longrightarrow> stat_es es k ks = Inl ENOENT"
  by (induction es) auto

lemma put_es_keys: "fst ` set (put_es es k ks v) \<subseteq> insert k (fst ` set es)"
proof (induction es)
  case Nil
  then show ?case by (cases ks; cases v) simp_all
next
  case (Cons a es)
  then show ?case by (cases a; cases ks; cases v) auto
qed

lemma put_es_keys_None: "fst ` set (put_es es k ks None) \<subseteq> fst ` set es"
proof (induction es)
  case Nil
  then show ?case by (cases ks) simp_all
next
  case (Cons a es)
  then show ?case by (cases a; cases ks) auto
qed

lemma wf_put:
  "wfTree t \<Longrightarrow> \<forall>k \<in> set p. okName k \<Longrightarrow> (\<forall>n. v = Some n \<longrightarrow> wfTree n) \<Longrightarrow> wfTree (put t p v)"
  "wfEntries es \<Longrightarrow> okName k \<Longrightarrow> \<forall>k \<in> set ks. okName k \<Longrightarrow> (\<forall>n. v = Some n \<longrightarrow> wfTree n)
     \<Longrightarrow> wfEntries (put_es es k ks v)"
proof (induction t p v and es k ks v rule: put_put_es.induct)
  case (4 k ks v)
  then show ?case by (cases ks; cases v) simp_all
next
  case (5 k' n es k ks v)
  have "fst ` set (put_es es k ks v) \<subseteq> insert k (fst ` set es)" by (rule put_es_keys)
  with 5 show ?case by (cases ks; cases v) auto
qed auto

lemma stat_put_None_gone:
  "wfTree t \<Longrightarrow> p \<noteq> [] \<Longrightarrow> isl (stat (put t p None) p)"
  "wfEntries es \<Longrightarrow> isl (stat_es (put_es es k ks None) k ks)"
proof (induction t p "None :: node option" and es k ks "None :: node option" rule: put_put_es.induct)
  case (4 k ks)
  then show ?case by (cases ks) simp_all
next
  case (5 k' n es k ks)
  then show ?case by (cases ks) (auto simp: stat_es_absent)
qed auto

lemma stat_put_None_absent:
  "wfTree t \<Longrightarrow> isl (stat t q) \<Longrightarrow> isl (stat (put t p None) q)"
  "wfEntries es \<Longrightarrow> isl (stat_es es k' ks') \<Longrightarrow> isl (stat_es (put_es es k ks None) k' ks')"
proof (induction t p "None :: node option" and es k ks "None :: node option" arbitrary: q and k' ks' rule: put_put_es.induct)
  case (3 es k ks)
  then show ?case by (cases q) auto
next
  case (4 k ks)
  then show ?case by (cases ks) simp_all
next
  case (5 k' n es k ks)
  then show ?case 
    using put_es_keys_None[of es k ks] by (cases ks) (auto simp: stat_es_absent split: if_splits)
qed auto

subsection \<open>A regular file elsewhere is left alone\<close>

lemma mkdirFrom_file:
  "stat t q = Inr (File c) \<Longrightarrow> stat (snd (mkdirFrom d t pre ks)) q = Inr (File c)"
proof (induction d t pre ks rule: mkdirFrom.induct)
  case (1 d t pre)
  then show ?case by simp
next
  case (2 d t pre k ks)
  show ?case
  proof (cases "stat t (pre @ [k])")
    case (Inl e)
    show ?thesis
    proof (cases "e = ENOENT \<and> \<not> d (pre @ [k])")
      case True
      have "q \<noteq> pre @ [k]" using 2(3) Inl by auto
      then have np: "\<not> prefix (pre @ [k]) q"
        using not_prefix_of_file[of t q c "pre @ [k]"] 2(3) Inl by auto
      have "stat (put t (pre @ [k]) (Some (Dir []))) q = Inr (File c)"
        using stat_put_file(1)[OF 2(3) np] .
      with 2(1)[of e] Inl True show ?thesis by simp
    next
      case False
      with Inl 2(3) show ?thesis by auto
    qed
  next
    case (Inr n)
    with 2 show ?thesis by (cases n) auto
  qed
qed

lemma os_MkdirAll_file:
  "stat t q = Inr (File c) \<Longrightarrow> stat (snd (os_MkdirAll d t p)) q = Inr (File c)"
  by (simp add: os_MkdirAll_def mkdirFrom_file)

lemma os_Remove_file:
  assumes "stat t q = Inr (File c)" and "q \<noteq> p"
  shows "stat (snd (os_Remove d t p)) q = Inr (File c)"
proof (cases "stat t p")
  case (Inl e)
  with assms show ?thesis by (simp add: os_Remove_def)
next
  case (Inr n)
  show ?thesis
  proof (cases n)
    case (File c')
    have "\<not> prefix p q" using not_prefix_of_file[OF assms] Inr File by simp
    then show ?thesis using assms Inr File by (simp add: os_Remove_def stat_put_file)
  next
    case (Dir es)
    show ?thesis
    proof (cases "es = []")
      case True
      have "\<not> prefix p q" using not_prefix_of_file[OF assms] Inr Dir True by simp
      then show ?thesis using assms Inr Dir by (simp add: os_Remove_def stat_put_file)
    next
      case False
      then show ?thesis using assms Inr Dir by (simp add: os_Remove_def)
    qed
  qed
qed

lemma os_Create_ok:
  assumes "os_Create d t p = (None, t2)"
  shows "stat t2 p = Inr (File [])"
proof -
  from assms obtain es where par: "stat t (butlast p) = Inr (Dir es)"
    and t2: "t2 = put t p (Some (File []))" and nd: "\<forall>es'. stat t p \<noteq> Inr (Dir es')"
    by (auto simp: os_Create_def split: sum.splits node.splits if_splits)
  have "p \<noteq> []" using par nd by (cases p) auto
  then show ?thesis using stat_put_Some(1)[OF par] t2 by simp
qed

lemma os_Create_file:
  assumes "stat t q = Inr (File c)" and "q \<noteq> p"
  shows "stat (snd (os_Create d t p)) q = Inr (File c)"
proof (cases "\<exists>es. stat t p = Inr (Dir es)")
  case True
  then show ?thesis using assms by (auto simp: os_Create_def split: sum.splits node.splits)
next
  case False
  then have "(\<exists>c'. stat t p = Inr (File c')) \<or> isl (stat t p) \<or> stat t p = Inr (Dir [])"
    by (cases "stat t p") (auto, metis node.exhaust)
  then have "\<not> prefix p q" using not_prefix_of_file[OF assms] by simp
  then have "stat (put t p v) q = Inr (File c)" for v
    using stat_put_file(1)[OF assms(1)] by simp
  then show ?thesis using assms by (auto simp: os_Create_def split: sum.splits node.splits)
qed

lemma copyFile_file:
  assumes "stat t q = Inr (File c)" and "q \<noteq> dst"
  shows "stat (snd (copyFile E t src dst)) q = Inr (File c)"
proof -
  define made where "made = (case stat t (butlast dst) of
                    Inl e \<Rightarrow> if IsNotExist e then os_MkdirAll (denied E) t (butlast dst) else (None, t)
                  | Inr n \<Rightarrow> (None, t))"
  have m: "stat (snd made) q = Inr (File c)"
    using assms(1) by (auto simp: made_def os_MkdirAll_file split: sum.splits)
  have cr: "stat (snd (os_Create (denied E) (snd made) dst)) q = Inr (File c)"
    using os_Create_file[OF m assms(2)] .
  have fin: "stat (put t2 dst (Some (File c'))) q = Inr (File c)"
    if "os_Create (denied E) (snd made) dst = (None, t2)" for t2 c'
  proof -
    have a: "stat t2 q = Inr (File c)" using cr that by simp
    have "stat t2 dst = Inr (File [])" using os_Create_ok[OF that] .
    then have "\<not> prefix dst q" using not_prefix_of_file[OF a assms(2)] by simp
    then show ?thesis using stat_put_file(1)[OF a] by simp
  qed
  show ?thesis
    unfolding copyFile_def Let_def made_def[symmetric]
    using m cr fin
    by (cases made) (auto split: option.splits sum.splits prod.splits node.splits)
qed

section \<open>The order of a range over the map\<close>

lemma mset_permute [simp]: "mset (permute ns xs) = mset xs"
proof (induction ns xs rule: permute.induct)
  case (3 n ns x xs)
  let ?ys = "x # xs"
  let ?i = "n mod length ?ys"
  have i: "?i < length ?ys" by simp
  have "mset ?ys = mset (take ?i ?ys @ ?ys ! ?i # drop (Suc ?i) ?ys)"
    using id_take_nth_drop[OF i] by simp
  then have "mset ?ys = add_mset (?ys ! ?i) (mset (take ?i ?ys @ drop (Suc ?i) ?ys))"
    by simp
  then show ?case using 3 by (simp add: Let_def)
qed simp_all

lemma set_permute [simp]: "set (permute ns xs) = set xs"
  by (metis mset_permute set_mset_mset)

lemma distinct_permute [simp]: "distinct (permute ns xs) = distinct xs"
  by (metis mset_permute mset_eq_imp_distinct_iff)

lemma permute_complete: "mset ys = mset xs \<Longrightarrow> \<exists>ns. permute ns xs = ys"
proof (induction ys arbitrary: xs)
  case Nil
  then show ?case by (intro exI[of _ "[]"]) simp
next
  case (Cons y ys)
  then have "y \<in> set xs" by (metis list.set_intros(1) set_mset_mset)
  then obtain i where i: "i < length xs" "xs ! i = y" by (auto simp: in_set_conv_nth)
  let ?r = "take i xs @ drop (Suc i) xs"
  have "mset xs = add_mset y (mset ?r)"
    using id_take_nth_drop[OF i(1)] i(2) by (metis mset.simps(2) mset_append union_mset_add_mset_right)
  then have "mset ys = mset ?r" using Cons.prems by simp
  from Cons.IH[OF this] obtain ns where ns: "permute ns ?r = ys" by blast
  obtain x xs' where xs: "xs = x # xs'" using i(1) by (cases xs) auto
  have "permute (i # ns) xs = y # ys"
    using i ns unfolding xs by (simp add: Let_def)
  then show ?case by blast
qed

section \<open>The three cases of one step of the copy/skip pass\<close>

lemma copyStep_not_exist: "srcNotExist E p \<Longrightarrow> copyStep E p s = s"
  by (simp add: copyStep_def)

lemma copyStep_claimed:
  assumes "\<not> srcNotExist E p" and "p \<in> set (backedUpFileRelPaths s)"
  shows "copyStep E p s =
     (if gitDiffNoIndex E (backupTree s) p = []
      then s\<lparr>backedUpFileRelPaths := removeAll p (backedUpFileRelPaths s)\<rparr>
      else copyAction E p (s\<lparr>backedUpFileRelPaths := removeAll p (backedUpFileRelPaths s)\<rparr>))"
  using assms by (simp add: copyStep_def Let_def)

lemma copyStep_new:
  assumes "\<not> srcNotExist E p" and "p \<notin> set (backedUpFileRelPaths s)"
  shows "copyStep E p s = copyAction E p s"
  using assms by (simp add: copyStep_def)

lemma copyAction_files [simp]:
  "backedUpFileRelPaths (copyAction E p s) = backedUpFileRelPaths s"
  by (simp add: copyAction_def split: prod.splits)

lemma copyAction_dirs [simp]:
  "backedUpDirRelPaths (copyAction E p s) = backedUpDirRelPaths s"
  by (simp add: copyAction_def split: prod.splits)

lemma gitDiffNoIndex_files:
  assumes "\<not> diffFails E p"
    and "stat (projects E) (comps p) = Inr (File a)"
    and "stat t (comps p) = Inr (File b)"
  shows "gitDiffNoIndex E t p = [] \<longleftrightarrow> a = b"
  using assms by (simp add: gitDiffNoIndex_def)

lemma pruneStep_stdout:
  "stdout (pruneStep E d s) = stdout s @
     (case fst (os_Remove (denied E) (backupTree s) (comps d)) of
        None \<Rightarrow> []
      | Some e \<Rightarrow> if e = ENOENT then [] else [ErrLine e])"
  by (simp add: pruneStep_def IsNotExist_def split: prod.splits option.splits)

section \<open>Facts about paths, the snapshot and the passes\<close>

lemma splitPath_not_Nil [simp]: "splitPath s \<noteq> []"
  by (induction s) (auto split: list.splits)

lemma splitPath_plain: "CHR ''/'' \<notin> set x \<Longrightarrow> splitPath x = [x]"
  by (induction x) (auto split: list.splits)

lemma splitPath_append:
  "CHR ''/'' \<notin> set x \<Longrightarrow> splitPath (x @ CHR ''/'' # r) = x # splitPath r"
  by (induction x) (auto split: list.splits)

lemma splitPath_joinSep:
  "cs \<noteq> [] \<Longrightarrow> \<forall>c \<in> set cs. CHR ''/'' \<notin> set c \<Longrightarrow> splitPath (joinSep cs) = cs"
proof (induction cs rule: joinSep.induct)
  case 1
  then show ?case by simp
next
  case (2 x)
  then show ?case by (simp add: splitPath_plain)
next
  case (3 x y ys)
  then show ?case using splitPath_append[of x "joinSep (y # ys)"] by simp
qed

lemma comps_Rel: "\<forall>c \<in> set cs. okName c \<Longrightarrow> comps (Rel cs) = cs"
proof (cases "cs = []")
  case True
  then show ?thesis by (simp add: Rel_def comps_def)
next
  case False
  assume ok: "\<forall>c \<in> set cs. okName c"
  then have "splitPath (joinSep cs) = cs"
    using False splitPath_joinSep by (simp add: okName_def)
  moreover have "filter (\<lambda>c. c \<noteq> [] \<and> c \<noteq> ''.'') cs = cs"
    using ok by (auto simp: okName_def intro: filter_True)
  ultimately show ?thesis using False by (simp add: Rel_def comps_def)
qed

lemma splitPath_no_sep: "c \<in> set (splitPath s) \<Longrightarrow> CHR ''/'' \<notin> set c"
proof (induction s arbitrary: c)
  case Nil
  then show ?case by simp
next
  case (Cons a s)
  then show ?case by (cases "splitPath s") (auto split: if_splits)
qed

lemma okName_comps: "c \<in> set (comps p) \<Longrightarrow> okName c"
  by (auto simp: comps_def okName_def dest: splitPath_no_sep)

lemma visit_simps [simp]:
  "visit (ds, fs) (p, True) = (ds @ [Rel p], fs)"
  "visit (ds, fs) (p, False) = (ds, List.insert (Rel p) fs)"
  by (simp_all add: visit_def)

lemma foldl_visit_fst:
  "fst (foldl visit (ds, fs) ws) = ds @ map (\<lambda>e. Rel (fst e)) (filter snd ws)"
proof (induction ws arbitrary: ds fs)
  case Nil
  then show ?case by simp
next
  case (Cons w ws)
  then show ?case by (cases w; cases "snd w") simp_all
qed

lemma foldl_visit_snd:
  "set (snd (foldl visit (ds, fs) ws))
     = set fs \<union> set (map (\<lambda>e. Rel (fst e)) (filter (\<lambda>e. \<not> snd e) ws))"
proof (induction ws arbitrary: ds fs)
  case Nil
  then show ?case by simp
next
  case (Cons w ws)
  then show ?case by (cases w; cases "snd w") auto
qed

lemma foldl_visit_distinct:
  "distinct fs \<Longrightarrow> distinct (snd (foldl visit (ds, fs) ws))"
proof (induction ws arbitrary: ds fs)
  case Nil
  then show ?case by simp
next
  case (Cons w ws)
  then show ?case by (cases w; cases "snd w") simp_all
qed

lemma snapshot_dirs: "fst (snapshot t) = map Rel (walkDirs [] t)"
  by (simp add: snapshot_def foldl_visit_fst walkDirs_def)

lemma snapshot_files: "set (snd (snapshot t)) = Rel ` set (walkFiles [] t)"
  by (simp add: snapshot_def foldl_visit_snd walkFiles_def image_image)

lemma snapshot_distinct: "distinct (snd (snapshot t))"
  by (simp add: snapshot_def foldl_visit_distinct)

lemma walk_stat:
  "wfTree t \<Longrightarrow> (p, b) \<in> set (walk pre t) \<Longrightarrow>
     \<exists>r n. p = pre @ r \<and> (\<forall>c \<in> set r. okName c) \<and> stat t r = Inr n \<and> b = isDir n"
  "wfEntries es \<Longrightarrow> (p, b) \<in> set (walk_es pre es) \<Longrightarrow>
     \<exists>k r n. p = pre @ k # r \<and> okName k \<and> (\<forall>c \<in> set r. okName c) \<and>
         stat_es es k r = Inr n \<and> b = isDir n"
proof (induction pre t and pre es arbitrary: p b and p b rule: walk_walk_es.induct)
  case (1 p c)
  then show ?case by (auto simp: isDir_def)
next
  case (2 pre es)
  show ?case
  proof (cases "(p, b) = (pre, True)")
    case True
    then show ?thesis by (simp add: isDir_def)
  next
    case False
    with 2 have "(p, b) \<in> set (walk_es pre es)" by auto
    with 2(1)[of p b] 2(2) obtain k r n where "p = pre @ k # r" "okName k" "\<forall>c \<in> set r. okName c"
      "stat_es es k r = Inr n" "b = isDir n"
      by auto
    then show ?thesis by (intro exI[of _ "k # r"] exI[of _ n]) auto
  qed
next
  case (3 p)
  then show ?case by simp
next
  case (4 pre k n es)
  from 4(4) consider (a) "(p, b) \<in> set (walk (pre @ [k]) n)" | (b) "(p, b) \<in> set (walk_es pre es)"
    by auto
  then show ?case
  proof cases
    case a
    with 4(1)[of p b] 4(3) obtain r m where "p = (pre @ [k]) @ r" "\<forall>c \<in> set r. okName c"
      "stat n r = Inr m" "b = isDir m"
      by auto
    then show ?thesis using 4(3) by (intro exI[of _ k] exI[of _ r] exI[of _ m]) auto
  next
    case b
    with 4(2)[of p b] 4(3) obtain k' r m where kr: "p = pre @ k' # r" "okName k'" "\<forall>c \<in> set r. okName c"
      "stat_es es k' r = Inr m" "b = isDir m"
      by auto
    have "k' \<in> fst ` set es"
      using kr(4) stat_es_absent[of k' es r] by auto
    then have "k' \<noteq> k" using 4(3) by auto
    then show ?thesis using kr by (intro exI[of _ k'] exI[of _ r] exI[of _ m]) auto
  qed
qed

lemma wf_mkdirFrom:
  "wfTree t \<Longrightarrow> \<forall>k \<in> set pre \<union> set ks. okName k \<Longrightarrow> wfTree (snd (mkdirFrom d t pre ks))"
proof (induction d t pre ks rule: mkdirFrom.induct)
  case (1 d t pre)
  then show ?case by simp
next
  case (2 d t pre k ks)
  have w: "wfTree (put t (pre @ [k]) (Some (Dir [])))"
    using 2(3,4) by (intro wf_put(1)) auto
  show ?case
  proof (cases "stat t (pre @ [k])")
    case (Inl e)
    with 2 w show ?thesis by auto
  next
    case (Inr n)
    with 2 show ?thesis by (cases n) auto
  qed
qed

lemma wf_os_Create:
  "wfTree t \<Longrightarrow> \<forall>k \<in> set p. okName k \<Longrightarrow> wfTree (snd (os_Create d t p))"
  by (auto simp: os_Create_def wf_put split: sum.splits node.splits)

lemma wf_os_Remove:
  "wfTree t \<Longrightarrow> \<forall>k \<in> set p. okName k \<Longrightarrow> wfTree (snd (os_Remove d t p))"
  by (auto simp: os_Remove_def wf_put split: sum.splits node.splits)

lemma wf_copyFile:
  assumes "wfTree t" and "\<forall>k \<in> set dst. okName k"
  shows "wfTree (snd (copyFile E t src dst))"
proof -
  define made where "made = (case stat t (butlast dst) of
                    Inl e \<Rightarrow> if IsNotExist e then os_MkdirAll (denied E) t (butlast dst) else (None, t)
                  | Inr n \<Rightarrow> (None, t))"
  have ok': "\<forall>k \<in> set (butlast dst). okName k" using assms(2) by (auto dest: in_set_butlastD)
  have m: "wfTree (snd made)"
    using assms(1) ok' by (auto simp: made_def os_MkdirAll_def wf_mkdirFrom split: sum.splits)
  have cr: "wfTree (snd (os_Create (denied E) (snd made) dst))"
    using wf_os_Create[OF m assms(2)] .
  have fin: "wfTree (put t2 dst (Some (File c')))"
    if "os_Create (denied E) (snd made) dst = (None, t2)" for t2 c'
    using cr that assms(2) by (intro wf_put(1)) auto
  show ?thesis
    unfolding copyFile_def Let_def made_def[symmetric]
    using m cr fin
    by (cases made) (auto split: option.splits sum.splits prod.splits node.splits)
qed

lemma os_Remove_absent:
  "wfTree t \<Longrightarrow> isl (stat t q) \<Longrightarrow> isl (stat (snd (os_Remove d t p)) q)"
  by (auto simp: os_Remove_def stat_put_None_absent split: sum.splits node.splits)

lemma os_Remove_file_gone:
  assumes "wfTree t" and "stat t p = Inr (File c)" and "p \<noteq> []" and "\<not> d p"
  shows "os_Remove d t p = (None, put t p None)" and "isl (stat (snd (os_Remove d t p)) p)"
  using assms by (simp_all add: os_Remove_def stat_put_None_gone)

lemma os_Remove_file_denied:
  assumes "stat t p = Inr (File c)" and "d p"
  shows "os_Remove d t p = (Some EACCES, t)"
  using assms by (simp add: os_Remove_def)

lemma canonical_inj: "canonical p \<Longrightarrow> canonical q \<Longrightarrow> comps p = comps q \<Longrightarrow> p = q"
  by (metis canonical_def)

lemma copyStep_files:
  "backedUpFileRelPaths (copyStep E p s) =
     (if srcNotExist E p then backedUpFileRelPaths s else removeAll p (backedUpFileRelPaths s))"
  by (simp add: copyStep_def Let_def)

lemma copyStep_dirs [simp]: "backedUpDirRelPaths (copyStep E p s) = backedUpDirRelPaths s"
  by (simp add: copyStep_def Let_def)

lemma copyPass_dirs [simp]: "backedUpDirRelPaths (copyPass E ps s) = backedUpDirRelPaths s"
  by (induction ps arbitrary: s) simp_all

lemma copyPass_files:
  "set (backedUpFileRelPaths (copyPass E ps s)) =
     set (backedUpFileRelPaths s) - {p \<in> set ps. \<not> srcNotExist E p}"
  by (induction ps arbitrary: s) (auto simp: copyStep_files)

lemma copyPass_files_distinct:
  "distinct (backedUpFileRelPaths s) \<Longrightarrow> distinct (backedUpFileRelPaths (copyPass E ps s))"
  by (induction ps arbitrary: s) (auto simp: copyStep_files distinct_removeAll)

lemma copyAction_dry:
  "dryRun E \<Longrightarrow> copyAction E p s = s\<lparr>stdout := stdout s @ [Plus p]\<rparr>"
  by (simp add: copyAction_def)

lemma copyAction_live:
  "\<not> dryRun E \<Longrightarrow> copyAction E p s =
     s\<lparr>backupTree := snd (copyFile E (backupTree s) (comps p) (comps p)),
       stdout := stdout s @ printErr (fst (copyFile E (backupTree s) (comps p) (comps p))),
       calls := calls s @ [CopyFile p]\<rparr>"
  by (simp add: copyAction_def split: prod.splits)

lemma srcNotExist_cong: "projects Ed = projects El \<Longrightarrow> srcNotExist Ed p = srcNotExist El p"
  by (simp add: srcNotExist_def)

lemma gitDiffNoIndex_cong:
  "projects Ed = projects El \<Longrightarrow> diffFails Ed = diffFails El \<Longrightarrow> stat t (comps p) = stat t' (comps p)
     \<Longrightarrow> gitDiffNoIndex Ed t p = gitDiffNoIndex El t' p"
  by (auto simp: gitDiffNoIndex_def split: sum.splits node.splits)

lemma sim_copyAction:
  assumes "dryRun Ed" and "\<not> dryRun El" and "canonical q"
    and "sim sd sl" and "q \<notin> set (backedUpFileRelPaths sl)"
  shows "sim (copyAction Ed q sd) (copyAction El q sl)"
    and "backupTree (copyAction Ed q sd) = backupTree sd"
    and "calls (copyAction Ed q sd) = calls sd"
    and "stdout (copyAction Ed q sd) = stdout sd @ [Plus q]"
    and "calls (copyAction El q sl) = calls sl @ [CopyFile q]"
proof -
  have ok: "\<forall>k \<in> set (comps q). okName k" by (simp add: okName_comps)
  have wf: "wfTree (snd (copyFile El (backupTree sl) (comps q) (comps q)))"
    using assms(4) ok by (intro wf_copyFile) (auto simp: sim_def)
  have keep: "stat (snd (copyFile El (backupTree sl) (comps q) (comps q))) (comps p) = Inr (File c)"
    if "p \<in> set (backedUpFileRelPaths sl)" "stat (backupTree sl) (comps p) = Inr (File c)" for p c
  proof -
    have "canonical p" using assms(4) that(1) by (simp add: sim_def)
    then have "comps p \<noteq> comps q" using canonical_inj[of p q] assms(3,5) that(1) by auto
    then show ?thesis using copyFile_file[OF that(2)] by simp
  qed
  show "sim (copyAction Ed q sd) (copyAction El q sl)"
    using assms(1,2,4) wf keep
    by (simp add: copyAction_dry copyAction_live sim_def) blast
  show "backupTree (copyAction Ed q sd) = backupTree sd" "calls (copyAction Ed q sd) = calls sd"
    "stdout (copyAction Ed q sd) = stdout sd @ [Plus q]"
    using assms(1) by (simp_all add: copyAction_dry)
  show "calls (copyAction El q sl) = calls sl @ [CopyFile q]"
    using assms(2) by (simp add: copyAction_live)
qed

lemma sim_claim:
  "sim sd sl \<Longrightarrow>
   sim (sd\<lparr>backedUpFileRelPaths := removeAll q (backedUpFileRelPaths sd)\<rparr>)
       (sl\<lparr>backedUpFileRelPaths := removeAll q (backedUpFileRelPaths sl)\<rparr>)"
  by (simp add: sim_def)

lemma sim_copyStep:
  assumes "dryRun Ed" and "\<not> dryRun El" and "projects Ed = projects El"
    and "diffFails Ed = diffFails El" and "canonical q" and "sim sd sl"
  shows "sim (copyStep Ed q sd) (copyStep El q sl) \<and>
         backupTree (copyStep Ed q sd) = backupTree sd \<and>
         calls (copyStep Ed q sd) = calls sd \<and>
         (\<exists>cs. calls (copyStep El q sl) = calls sl @ cs \<and>
               stdout (copyStep Ed q sd) = stdout sd @ map report cs)"
proof -
  let ?sd1 = "sd\<lparr>backedUpFileRelPaths := removeAll q (backedUpFileRelPaths sd)\<rparr>"
  let ?sl1 = "sl\<lparr>backedUpFileRelPaths := removeAll q (backedUpFileRelPaths sl)\<rparr>"
  have ne: "srcNotExist Ed q = srcNotExist El q" using assms(3) by (rule srcNotExist_cong)
  have fs: "backedUpFileRelPaths sd = backedUpFileRelPaths sl" using assms(6) by (simp add: sim_def)
  have s1: "sim ?sd1 ?sl1" using assms(6) by (rule sim_claim)
  have nin: "q \<notin> set (backedUpFileRelPaths ?sl1)" by simp
  note act1 = sim_copyAction[OF assms(1,2,5) s1 nin]
  show ?thesis
  proof (cases "srcNotExist El q")
    case True
    then show ?thesis using ne assms(6) by (simp add: copyStep_def)
  next
    case False
    show ?thesis
    proof (cases "q \<in> set (backedUpFileRelPaths sl)")
      case True
      then have "stat (backupTree sd) (comps q) = stat (backupTree sl) (comps q)"
        using assms(6) by (auto simp: sim_def)
      then have d: "gitDiffNoIndex Ed (backupTree sd) q = gitDiffNoIndex El (backupTree sl) q"
        using gitDiffNoIndex_cong[OF assms(3,4)] by simp
      show ?thesis
      proof (cases "gitDiffNoIndex El (backupTree sl) q = []")
        case e: True
        have "copyStep Ed q sd = ?sd1" "copyStep El q sl = ?sl1"
          using False ne True fs d e by (simp_all add: copyStep_def Let_def)
        then show ?thesis using s1 by simp
      next
        case e: False
        have "copyStep Ed q sd = copyAction Ed q ?sd1" "copyStep El q sl = copyAction El q ?sl1"
          using False ne True fs d e by (simp_all add: copyStep_def Let_def)
        then show ?thesis using act1 by (simp add: report_def)
      qed
    next
      case nin': False
      note act = sim_copyAction[OF assms(1,2,5,6) nin']
      have "copyStep Ed q sd = copyAction Ed q sd" "copyStep El q sl = copyAction El q sl"
        using False ne nin' fs by (simp_all add: copyStep_def)
      then show ?thesis using act by (simp add: report_def)
    qed
  qed
qed

lemma sim_copyPass:
  assumes "dryRun Ed" and "\<not> dryRun El" and "projects Ed = projects El"
    and "diffFails Ed = diffFails El"
  shows "\<forall>q \<in> set ps. canonical q \<Longrightarrow> sim sd sl \<Longrightarrow>
         sim (copyPass Ed ps sd) (copyPass El ps sl) \<and>
         backupTree (copyPass Ed ps sd) = backupTree sd \<and>
         calls (copyPass Ed ps sd) = calls sd \<and>
         (\<exists>cs. calls (copyPass El ps sl) = calls sl @ cs \<and>
               stdout (copyPass Ed ps sd) = stdout sd @ map report cs)"
proof (induction ps arbitrary: sd sl)
  case Nil
  then show ?case by simp
next
  case (Cons q ps)
  from Cons.prems have cq: "canonical q" and rest: "\<forall>q \<in> set ps. canonical q" by simp_all
  from sim_copyStep[OF assms cq Cons.prems(2)]
  obtain cs where st: "sim (copyStep Ed q sd) (copyStep El q sl)"
    "backupTree (copyStep Ed q sd) = backupTree sd"
    "calls (copyStep Ed q sd) = calls sd"
    "calls (copyStep El q sl) = calls sl @ cs"
    "stdout (copyStep Ed q sd) = stdout sd @ map report cs"
    by blast
  from Cons.IH[OF rest st(1)]
  obtain cs' where r: "sim (copyPass Ed ps (copyStep Ed q sd)) (copyPass El ps (copyStep El q sl))"
    "backupTree (copyPass Ed ps (copyStep Ed q sd)) = backupTree (copyStep Ed q sd)"
    "calls (copyPass Ed ps (copyStep Ed q sd)) = calls (copyStep Ed q sd)"
    "calls (copyPass El ps (copyStep El q sl)) = calls (copyStep El q sl) @ cs'"
    "stdout (copyPass Ed ps (copyStep Ed q sd)) = stdout (copyStep Ed q sd) @ map report cs'"
    by blast
  show ?case
    using st r by (intro conjI exI[of _ "cs @ cs'"]) simp_all
qed

lemma deleteLoop_dry:
  "dryRun E \<Longrightarrow> deleteLoop E ps s = s\<lparr>stdout := stdout s @ map Minus ps\<rparr>"
  by (induction ps arbitrary: s) (simp_all add: deleteStep_def)

lemma deleteStep_live:
  "\<not> dryRun E \<Longrightarrow> deleteStep E p s =
     s\<lparr>backupTree := snd (os_Remove (denied E) (backupTree s) (comps p)),
       stdout := stdout s @ printErr (fst (os_Remove (denied E) (backupTree s) (comps p))),
       calls := calls s @ [Remove p]\<rparr>"
  by (simp add: deleteStep_def split: prod.splits)

lemma deleteLoop_calls:
  "\<not> dryRun E \<Longrightarrow> calls (deleteLoop E ps s) = calls s @ map Remove ps"
  by (induction ps arbitrary: s) (simp_all add: deleteStep_live)

lemma deleteLoop_files [simp]:
  "backedUpFileRelPaths (deleteLoop E ps s) = backedUpFileRelPaths s"
  by (induction ps arbitrary: s) (simp_all add: deleteStep_def split: prod.splits)

lemma deleteLoop_dirs [simp]:
  "backedUpDirRelPaths (deleteLoop E ps s) = backedUpDirRelPaths s"
  by (induction ps arbitrary: s) (simp_all add: deleteStep_def split: prod.splits)

lemma pruneStep_fields [simp]:
  "backedUpFileRelPaths (pruneStep E d s) = backedUpFileRelPaths s"
  "backedUpDirRelPaths (pruneStep E d s) = backedUpDirRelPaths s"
  "calls (pruneStep E d s) = calls s @ [Remove d]"
  by (simp_all add: pruneStep_def split: prod.splits)

lemma pruneLoop_fields [simp]:
  "backedUpFileRelPaths (pruneLoop E n s) = backedUpFileRelPaths s"
  "backedUpDirRelPaths (pruneLoop E n s) = backedUpDirRelPaths s"
  by (induction n arbitrary: s) simp_all

lemma pruneLoop_calls:
  "n \<le> length (tl (backedUpDirRelPaths s)) \<Longrightarrow>
   calls (pruneLoop E n s) = calls s @ map Remove (rev (take n (tl (backedUpDirRelPaths s))))"
proof (induction n arbitrary: s)
  case 0
  then show ?case by simp
next
  case (Suc n)
  let ?ds = "backedUpDirRelPaths s"
  have lt: "n < length (tl ?ds)" using Suc.prems by simp
  then have nth: "?ds ! Suc n = tl ?ds ! n" by (simp add: nth_tl)
  have "take (Suc n) (tl ?ds) = take n (tl ?ds) @ [tl ?ds ! n]"
    using lt by (rule take_Suc_conv_app_nth)
  then show ?case using Suc.IH[of "pruneStep E (?ds ! Suc n) s"] lt nth by simp
qed

lemma prunePass_calls:
  "\<not> dryRun E \<Longrightarrow> calls (prunePass E s) = calls s @ map Remove (rev (tl (backedUpDirRelPaths s)))"
  by (simp add: prunePass_def pruneLoop_calls)

lemma prunePass_dry: "dryRun E \<Longrightarrow> prunePass E s = s"
  by (simp add: prunePass_def)

lemma snapshot_file_stat:
  assumes "wfTree t" and "p \<in> set (snd (snapshot t))"
  shows "canonical p \<and> (\<exists>c. stat t (comps p) = Inr (File c))"
proof -
  from assms(2) obtain cs where p: "p = Rel cs" and "(cs, False) \<in> set (walk [] t)"
    by (auto simp: snapshot_files walkFiles_def)
  with walk_stat(1)[OF assms(1), of cs False "[]"]
  obtain n where ok: "\<forall>c \<in> set cs. okName c" and st: "stat t cs = Inr n" and "\<not> isDir n"
    by auto
  then obtain c where "n = File c" by (cases n) (auto simp: isDir_def)
  then show ?thesis using p st comps_Rel[OF ok] by (simp add: canonical_def)
qed

lemma initState_fields [simp]:
  "backupTree (initState E t) = t"
  "backedUpFileRelPaths (initState E t) = snd (snapshot t)"
  "backedUpDirRelPaths (initState E t) = fst (snapshot t)"
  "stdout (initState E t) = (if dryRun E then [Header, Blank] else [])"
  "calls (initState E t) = []"
  by (simp_all add: initState_def split: prod.splits)

lemma sim_initState: "wfTree t \<Longrightarrow> sim (initState Ed t) (initState El t)"
  using snapshot_file_stat by (simp add: sim_def)

lemma deleteLoop_live:
  assumes live: "\<not> dryRun E"
  shows "wfTree (backupTree s) \<Longrightarrow> distinct ps \<Longrightarrow>
     \<forall>p \<in> set ps. canonical p \<and> comps p \<noteq> [] \<and> (\<exists>c. stat (backupTree s) (comps p) = Inr (File c)) \<Longrightarrow>
     stdout (deleteLoop E ps s) = stdout s @ removeErrs E ps
     \<and> wfTree (backupTree (deleteLoop E ps s))
     \<and> (\<forall>p \<in> set ps. \<not> denied E (comps p) \<longrightarrow> isl (stat (backupTree (deleteLoop E ps s)) (comps p)))
     \<and> (\<forall>q c. stat (backupTree s) q = Inr (File c) \<longrightarrow> (q \<notin> comps ` set ps \<or> denied E q)
            \<longrightarrow> stat (backupTree (deleteLoop E ps s)) q = Inr (File c))
     \<and> (\<forall>q. isl (stat (backupTree s) q) \<longrightarrow> isl (stat (backupTree (deleteLoop E ps s)) q))"
proof (induction ps arbitrary: s)
  case Nil
  then show ?case by (simp add: removeErrs_def)
next
  case (Cons p ps)
  let ?t = "backupTree s"
  let ?r = "os_Remove (denied E) ?t (comps p)"
  let ?s1 = "deleteStep E p s"
  from Cons.prems obtain c where cp: "canonical p" and ne: "comps p \<noteq> []"
    and st: "stat ?t (comps p) = Inr (File c)" by auto
  have t1: "backupTree ?s1 = snd ?r" and o1: "stdout ?s1 = stdout s @ printErr (fst ?r)"
    using live by (simp_all add: deleteStep_live)
  have wf1: "wfTree (backupTree ?s1)"
    using Cons.prems(1) t1 by (simp add: wf_os_Remove okName_comps)
  have others: "comps p' \<noteq> comps p" if "p' \<in> set ps" for p'
    using that Cons.prems(2,3) cp canonical_inj[of p' p] by auto
  have keep: "stat (backupTree ?s1) q = Inr (File c')"
    if "stat ?t q = Inr (File c')" "q \<noteq> comps p \<or> denied E q" for q c'
  proof (cases "q = comps p")
    case True
    with that have "denied E (comps p)" by simp
    then show ?thesis using that(1) True st t1 by (simp add: os_Remove_file_denied)
  next
    case False
    then show ?thesis using os_Remove_file[OF that(1)] t1 by simp
  qed
  have pre1: "\<forall>p' \<in> set ps. canonical p' \<and> comps p' \<noteq> [] \<and>
       (\<exists>c. stat (backupTree ?s1) (comps p') = Inr (File c))"
    using Cons.prems(3) others keep by (metis list.set_intros(2))
  have d1: "distinct ps" using Cons.prems(2) by simp
  note IH = Cons.IH[OF wf1 d1 pre1]
  have out: "printErr (fst ?r) = (if denied E (comps p) then [ErrLine EACCES] else [])"
    using st Cons.prems(1) ne by (simp add: os_Remove_def printErr_def)
  have gone: "isl (stat (backupTree ?s1) (comps p))" if "\<not> denied E (comps p)"
    using os_Remove_file_gone(2)[of ?t "comps p" c "denied E"] Cons.prems(1) st ne that t1 by simp
  have absent: "isl (stat (backupTree ?s1) q)" if "isl (stat ?t q)" for q
    using os_Remove_absent[OF Cons.prems(1) that] t1 by simp
  have A: "stdout (deleteLoop E (p # ps) s) = stdout s @ removeErrs E (p # ps)"
    using IH o1 out by (simp add: removeErrs_def)
  have B: "wfTree (backupTree (deleteLoop E (p # ps) s))" using IH by simp
  have C: "\<forall>p' \<in> set (p # ps). \<not> denied E (comps p') \<longrightarrow>
       isl (stat (backupTree (deleteLoop E (p # ps) s)) (comps p'))"
    using IH gone by auto
  have D: "\<forall>q c. stat ?t q = Inr (File c) \<longrightarrow> (q \<notin> comps ` set (p # ps) \<or> denied E q)
            \<longrightarrow> stat (backupTree (deleteLoop E (p # ps) s)) q = Inr (File c)"
  proof (intro allI impI)
    fix q c' assume a: "stat ?t q = Inr (File c')" and b: "q \<notin> comps ` set (p # ps) \<or> denied E q"
    then have "q \<noteq> comps p \<or> denied E q" by auto
    then have "stat (backupTree ?s1) q = Inr (File c')" using keep a by blast
    moreover have "q \<notin> comps ` set ps \<or> denied E q" using b by auto
    ultimately show "stat (backupTree (deleteLoop E (p # ps) s)) q = Inr (File c')"
      using IH by simp
  qed
  have F: "\<forall>q. isl (stat ?t q) \<longrightarrow> isl (stat (backupTree (deleteLoop E (p # ps) s)) q)"
    using IH absent by simp
  show ?case using A B C D F by blast
qed

lemma snapshot_file_nonroot:
  assumes "wfTree t" and "isDir t" and "p \<in> set (snd (snapshot t))"
  shows "comps p \<noteq> []"
proof -
  from assms(3) obtain cs where p: "p = Rel cs" and "(cs, False) \<in> set (walk [] t)"
    by (auto simp: snapshot_files walkFiles_def)
  with walk_stat(1)[OF assms(1), of cs False "[]"]
  obtain n where ok: "\<forall>c \<in> set cs. okName c" and st: "stat t cs = Inr n" and nd: "\<not> isDir n"
    by auto
  have "cs \<noteq> []" using st nd assms(2) by auto
  then show ?thesis using p comps_Rel[OF ok] by simp
qed

subsection \<open>The order of the walk\<close>

lemma walkDirs_simps [simp]:
  "walkDirs pre (File c) = []"
  "walkDirs pre (Dir es) = pre # walkDirs_es pre es"
  "walkDirs_es pre [] = []"
  "walkDirs_es pre ((k, n) # es) = walkDirs (pre @ [k]) n @ walkDirs_es pre es"
  by (simp_all add: walkDirs_def walkDirs_es_def)

lemma walkDirs_parent_split:
  "walkDirs pre t = xs @ d # ys \<Longrightarrow> d = pre \<or> butlast d \<in> set xs"
  "walkDirs_es pre es = xs @ d # ys \<Longrightarrow> butlast d = pre \<or> butlast d \<in> set xs"
proof (induction pre t and pre es arbitrary: xs d ys and xs d ys rule: walk_walk_es.induct)
  case (1 p c)
  then show ?case by simp
next
  case (2 p es)
  show ?case
  proof (cases xs)
    case Nil
    with 2(2) show ?thesis by simp
  next
    case (Cons x xs')
    with 2(2) have "x = p" and "walkDirs_es p es = xs' @ d # ys" by auto
    with 2(1)[of xs' d ys] Cons show ?thesis by auto
  qed
next
  case (3 p)
  then show ?case by simp
next
  case (4 pre k n es)
  from 4(3) have "walkDirs (pre @ [k]) n @ walkDirs_es pre es = xs @ d # ys" by simp
  then consider
    (a) us where "walkDirs (pre @ [k]) n = xs @ d # us"
  | (b) us where "xs = walkDirs (pre @ [k]) n @ us" "walkDirs_es pre es = us @ d # ys"
    by (auto simp: append_eq_append_conv2 append_eq_Cons_conv Cons_eq_append_conv)
  then show ?case
  proof cases
    case a
    with 4(1)[of xs d us] show ?thesis by auto
  next
    case b
    with 4(2)[of us d ys] show ?thesis by auto
  qed
qed

lemma walkDirs_parent_first:
  assumes "i < length (walkDirs pre t)" and "walkDirs pre t ! i \<noteq> pre"
  shows "\<exists>j<i. walkDirs pre t ! j = butlast (walkDirs pre t ! i)"
proof -
  let ?L = "walkDirs pre t"
  have "?L = take i ?L @ ?L ! i # drop (Suc i) ?L"
    using assms(1) by (rule id_take_nth_drop)
  from walkDirs_parent_split(1)[OF this] assms(2)
  have "butlast (?L ! i) \<in> set (take i ?L)" by simp
  then obtain j where "j < length (take i ?L)" "take i ?L ! j = butlast (?L ! i)"
    by (auto simp: in_set_conv_nth)
  then show ?thesis by (intro exI[of _ j]) simp
qed

lemma walkDirs_tl_nonroot:
  assumes "wfTree t" and "cs \<in> set (tl (walkDirs [] t))"
  shows "cs \<noteq> [] \<and> (\<forall>c \<in> set cs. okName c)"
proof (cases t)
  case (File c)
  with assms(2) show ?thesis by simp
next
  case (Dir es)
  with assms(2) have "(cs, True) \<in> set (walk_es [] es)"
    by (auto simp: walkDirs_es_def)
  with walk_stat(2)[of es cs True "[]"] assms(1) Dir show ?thesis by auto
qed

lemma copyAction_calls_Remove:
  "Remove p \<in> set (calls (copyAction E q s)) \<Longrightarrow> Remove p \<in> set (calls s)"
  by (auto simp: copyAction_def split: if_splits prod.splits)

lemma copyStep_calls_Remove:
  "Remove p \<in> set (calls (copyStep E q s)) \<Longrightarrow> Remove p \<in> set (calls s)"
  by (auto simp: copyStep_def Let_def split: if_splits dest: copyAction_calls_Remove)

lemma copyPass_calls_Remove:
  "Remove p \<in> set (calls (copyPass E ps s)) \<Longrightarrow> Remove p \<in> set (calls s)"
  by (induction ps arbitrary: s) (auto dest: copyStep_calls_Remove)

lemma deleteLoop_calls_any:
  "calls (deleteLoop E ps s) = calls s @ (if dryRun E then [] else map Remove ps)"
  by (cases "dryRun E") (simp_all add: deleteLoop_dry deleteLoop_calls)

lemma prunePass_calls_any:
  "calls (prunePass E s) =
     calls s @ (if dryRun E then [] else map Remove (rev (tl (backedUpDirRelPaths s))))"
  by (cases "dryRun E") (simp_all add: prunePass_dry prunePass_calls)

section \<open>Facts about the list of files to back up\<close>

lemma addProjectDir_eq:
  "addProjectDir name fs acc = acc @ map (Join name) (filter (\<lambda>f. TrimSpace f \<noteq> []) fs)"
  by (induction fs arbitrary: acc) simp_all

lemma leadingSpace_Nil [simp]: "leadingSpace [] = 0"
  using leadingSpace_bounds[of "[]"] by auto

lemma trailingSpace_Nil [simp]: "trailingSpace [] = 0"
  using trailingSpace_bounds[of "[]"] by auto

lemma TrimSpace_Nil [simp]: "TrimSpace [] = []"
  by (simp add: TrimSpace_def trimLeft.simps[of "[]"] trimRight.simps[of "[]"])

lemma prefix_space_append:
  assumes "e \<in> set spaceRunes" and "CHR ''/'' \<notin> set name" and "rest = [] \<or> hd rest = CHR ''/''"
  shows "prefix e (name @ rest) \<longleftrightarrow> prefix e name"
proof
  assume "prefix e (name @ rest)"
  then have "prefix e name \<or> (\<exists>us. e = name @ us \<and> prefix us rest)"
    by (simp add: prefix_append)
  then show "prefix e name"
  proof
    assume "prefix e name" then show ?thesis .
  next
    assume "\<exists>us. e = name @ us \<and> prefix us rest"
    then obtain us where us: "e = name @ us" "prefix us rest" by blast
    show ?thesis
    proof (cases us)
      case Nil
      then show ?thesis using us by simp
    next
      case (Cons u us')
      then obtain r' where "rest = u # r'" using us(2) by (cases rest) auto
      then have "u = CHR ''/''" using assms(3) by simp
      then have "CHR ''/'' \<in> set e" using us(1) Cons by simp
      then show ?thesis using spaceRunes_ne[OF assms(1)] by simp
    qed
  qed
next
  assume "prefix e name" then show "prefix e (name @ rest)" by (simp add: prefix_prefix)
qed

lemma leadingSpace_append:
  assumes "CHR ''/'' \<notin> set name" and "rest = [] \<or> hd rest = CHR ''/''"
  shows "leadingSpace (name @ rest) = leadingSpace name"
proof -
  have "filter (\<lambda>e. prefix e (name @ rest)) spaceRunes = filter (\<lambda>e. prefix e name) spaceRunes"
    using prefix_space_append[OF _ assms] by (intro filter_cong) auto
  then show ?thesis by (simp add: leadingSpace_def)
qed

lemma trimLeft_append:
  "CHR ''/'' \<notin> set name \<Longrightarrow> rest = [] \<or> hd rest = CHR ''/'' \<Longrightarrow>
   trimLeft (name @ rest) = trimLeft name @ rest"
proof (induction name rule: trimLeft.induct)
  case (1 s)
  show ?case
  proof (cases "leadingSpace s = 0")
    case True
    then show ?thesis using leadingSpace_append[OF 1(2,3)]
      by (simp add: trimLeft.simps[of s] trimLeft.simps[of "s @ rest"])
  next
    case False
    have le: "leadingSpace s \<le> length s" using False leadingSpace_bounds by blast
    have "CHR ''/'' \<notin> set (drop (leadingSpace s) s)" using 1(2) by (auto dest: in_set_dropD)
    from 1(1)[OF False this 1(3)] le False leadingSpace_append[OF 1(2,3)]
    show ?thesis by (simp add: trimLeft.simps[of s] trimLeft.simps[of "s @ rest"])
  qed
qed

lemma leadingSpace_trimLeft [simp]: "leadingSpace (trimLeft s) = 0"
proof (induction s rule: trimLeft.induct)
  case (1 s)
  then show ?case by (cases "leadingSpace s = 0") (simp_all add: trimLeft.simps[of s])
qed

lemma set_trimLeft: "set (trimLeft s) \<subseteq> set s"
proof (induction s rule: trimLeft.induct)
  case (1 s)
  then show ?case by (cases "leadingSpace s = 0") (auto simp: trimLeft.simps[of s] dest: in_set_dropD)
qed

lemma trimRight_Nil: "trimRight t = [] \<Longrightarrow> t = [] \<or> leadingSpace t \<noteq> 0"
proof (induction t rule: trimRight.induct)
  case (1 s)
  show ?case
  proof (cases "trailingSpace s = 0")
    case True
    then show ?thesis using 1(2) by (simp add: trimRight.simps[of s])
  next
    case False
    then obtain e where e: "e \<in> set spaceRunes" "suffix e s" "trailingSpace s = length e"
      using trailingSpace_cases[of s] by auto
    then obtain s' where s: "s = s' @ e" by (auto simp: suffix_def)
    have tk: "take (length s - trailingSpace s) s = s'" using e(3) s by simp
    have "trimRight s' = []" using 1(2) False tk by (simp add: trimRight.simps[of s])
    with 1(1)[OF False] tk have "s' = [] \<or> leadingSpace s' \<noteq> 0" by simp
    then have "\<exists>e' \<in> set spaceRunes. prefix e' s"
    proof
      assume "s' = []" then show ?thesis using e(1) s by auto
    next
      assume "leadingSpace s' \<noteq> 0"
      then obtain e' where "e' \<in> set spaceRunes" "prefix e' s'" using leadingSpace_cases[of s'] by auto
      then have "e' \<in> set spaceRunes" "prefix e' (s' @ e)" by (simp_all add: prefix_prefix)
      then show ?thesis unfolding s by blast
    qed
    then have "leadingSpace s \<noteq> 0" using leadingSpace_cases[of s] spaceRunes_ne by auto
    then show ?thesis by simp
  qed
qed

lemma TrimSpace_joinSep:
  assumes "CHR ''/'' \<notin> set name" and "TrimSpace name \<noteq> []"
  shows "TrimSpace (joinSep (name # cs)) \<noteq> []"
proof -
  obtain rest where j: "joinSep (name # cs) = name @ rest" and r: "rest = [] \<or> hd rest = CHR ''/''"
    by (cases cs) auto
  let ?n = "trimLeft name"
  have ne: "?n \<noteq> []" using assms(2) by (auto simp: TrimSpace_def trimRight.simps[of "[]"])
  have ns: "CHR ''/'' \<notin> set ?n" using assms(1) set_trimLeft by blast
  have "leadingSpace (?n @ rest) = 0" using leadingSpace_append[OF ns r] by simp
  then have "trimRight (?n @ rest) \<noteq> []" using trimRight_Nil[of "?n @ rest"] ne by auto
  then show ?thesis using j trimLeft_append[OF assms(1) r] by (simp add: TrimSpace_def)
qed

text \<open>An entry of one no-break space (U+00A0) is blank; inner white space stays.\<close>

lemma TrimSpace_no_break_space: "TrimSpace [CHR 0xC2, CHR 0xA0] = []"
  by code_simp

lemma TrimSpace_inner: "TrimSpace '' ab c  '' = ''ab c''"
  by code_simp

lemma collapse_plain: "''..'' \<notin> set cs \<Longrightarrow> collapse rooted acc cs = rev acc @ cs"
  by (induction cs arbitrary: acc) auto

lemma comps_prefixed:
  assumes "okName name"
  shows "comps (name @ ''/'' @ f) = name # comps f"
proof -
  have "splitPath (name @ CHR ''/'' # f) = name # splitPath f"
    using assms by (intro splitPath_append) (simp add: okName_def)
  then show ?thesis using assms by (simp add: comps_def okName_def)
qed

lemma set_joinSep_hd: "set x \<subseteq> set (joinSep (x # xs))"
  by (cases xs) auto

lemma Join_plain:
  assumes "okName name" and "f \<noteq> []" and "''..'' \<notin> set (comps f)" and "name \<noteq> ''..''"
  shows "Join name f = joinSep (name # comps f)"
proof -
  have ne: "name \<noteq> []" and hd: "hd name \<noteq> CHR ''/''"
    using assms(1) by (auto simp: okName_def) (metis list.set_sel(1))
  have "collapse False [] (name # comps f) = name # comps f"
    using assms(3,4) by (intro collapse_plain[where acc="[]", simplified]) simp
  then show ?thesis
    using ne hd assms(2) comps_prefixed[OF assms(1)] by (simp add: Join_def Clean_def Rel_def)
qed

lemma forceInclude_append:
  "forceInclude d name r inc =
     (case forceInclude d name r [] of Inl e \<Rightarrow> Inl e | Inr ext \<Rightarrow> Inr (inc @ ext))"
  by (simp add: forceInclude_def Let_def split: sum.splits)

lemma forceIncludeAll_append:
  "forceIncludeAll d name rs inc =
     (case forceIncludeAll d name rs [] of Inl e \<Rightarrow> Inl e | Inr ext \<Rightarrow> Inr (inc @ ext))"
proof (induction rs arbitrary: inc)
  case Nil
  then show ?case by simp
next
  case (Cons r rs)
  show ?case
  proof (cases "forceInclude d name r []")
    case (Inl e)
    then show ?thesis using forceInclude_append[of d name r inc] by simp
  next
    case (Inr ext)
    then have a: "forceInclude d name r inc = Inr (inc @ ext)"
      using forceInclude_append[of d name r inc] by simp
    show ?thesis
      using Inr a Cons.IH[of "inc @ ext"] Cons.IH[of ext]
      by (simp split: sum.splits)
  qed
qed

lemma forceInclude_file:
  "stat (fsRoot d) (forceIncludedPathOf d name r) = Inr (File c) \<Longrightarrow>
   forceInclude d name r inc = Inr (inc @ [r])"
  by (simp add: forceInclude_def isDir_def)

lemma forceInclude_dir:
  "stat (fsRoot d) (forceIncludedPathOf d name r) = Inr (Dir es) \<Longrightarrow>
   forceInclude d name r inc =
     Inr (inc @ map (\<lambda>path. Rel (relParts (projectsPath d @ [name]) path))
               (walkFiles (forceIncludedPathOf d name r) (Dir es)))"
  by (simp add: forceInclude_def isDir_def)

lemma forceInclude_not_exist:
  "stat (fsRoot d) (forceIncludedPathOf d name r) = Inl ENOENT \<Longrightarrow>
   forceInclude d name r inc = Inr inc"
  by (simp add: forceInclude_def IsNotExist_def)

lemma forceInclude_other_error:
  "stat (fsRoot d) (forceIncludedPathOf d name r) = Inl e \<Longrightarrow> e \<noteq> ENOENT \<Longrightarrow>
   forceInclude d name r inc = Inl (PanicStat e)"
  by (simp add: forceInclude_def IsNotExist_def)

text \<open>
  A force-included path may lead out of the projects directory: the file \<^verbatim>\<open>/etc/key\<close> is
  found from the project \<^verbatim>\<open>/home/app\<close>, and the entry is put on the list.
\<close>

lemma forceInclude_outside:
  "forceIncludedPathOf outsideDisk ''app'' ''../../etc/key'' = [''etc'', ''key'']
   \<and> forceInclude outsideDisk ''app'' ''../../etc/key'' [] = Inr [''../../etc/key'']
   \<and> forceInclude outsideDisk ''app'' ''../../etc'' [] = Inr [''../../etc/key'']
   \<and> listProjectFiles (\<lambda>n. cleanGit) ''origin'' [''../../etc/key''] outsideDisk
       = Inr [''app/notes.txt'', ''../etc/key'']"
  by code_simp

lemma walk_complete:
  "stat t r = Inr n \<Longrightarrow> (pre @ r, isDir n) \<in> set (walk pre t)"
  "stat_es es k r = Inr n \<Longrightarrow> (pre @ k # r, isDir n) \<in> set (walk_es pre es)"
proof (induction t r and es k r arbitrary: pre and pre rule: stat_stat_es.induct)
  case (1 n)
  then show ?case by (cases n) (auto simp: isDir_def)
next
  case (5 k' n es k ks)
  then show ?case
    using 5(1)[of "pre @ [k]"] by (auto split: if_splits)
qed auto

lemma walkFiles_exact:
  assumes "wfTree t"
  shows "set (walkFiles pre t) = {pre @ r | r c. stat t r = Inr (File c)}"
proof (intro set_eqI iffI)
  fix p assume "p \<in> set (walkFiles pre t)"
  then have "(p, False) \<in> set (walk pre t)" by (auto simp: walkFiles_def)
  from walk_stat(1)[OF assms this] obtain r n where "p = pre @ r" "stat t r = Inr n" "\<not> isDir n"
    by auto
  then show "p \<in> {pre @ r | r c. stat t r = Inr (File c)}"
    by (cases n) (auto simp: isDir_def)
next
  fix p assume "p \<in> {pre @ r | r c. stat t r = Inr (File c)}"
  then obtain r c where "p = pre @ r" "stat t r = Inr (File c)" by auto
  with walk_complete(1)[of t r "File c" pre] show "p \<in> set (walkFiles pre t)"
    by (force simp: walkFiles_def isDir_def)
qed

lemma projectIncluded_union:
  assumes "projectIncluded g r d name forced = Inr included"
  shows "\<exists>ext. forceIncludeAll d name forced [] = Inr ext \<and> included = unionOf g r ext"
proof -
  from assms obtain u b where u: "lsFilesOthers g = (u, None)" and b: "branchShowCurrent g = (b, None)"
    by (auto simp: projectIncluded_def split: prod.splits option.splits)
  let ?inc = "splitOn (CHR 0x0A) u @ (if TrimSpace b \<noteq> []
        then splitOn (CHR 0x0A) (fst (diffNameOnly g (r @ ''/'' @ TrimSpace b))) else [])"
  have "forceIncludeAll d name forced ?inc = Inr included"
    using assms u b by (auto simp: projectIncluded_def Let_def)
  then obtain ext where "forceIncludeAll d name forced [] = Inr ext" "included = ?inc @ ext"
    using forceIncludeAll_append[of d name forced ?inc] by (auto split: sum.splits)
  then show ?thesis using u b by (auto simp: unionOf_def)
qed

lemma Join_not_blank:
  assumes "okName name" and "name \<noteq> ''..''" and "TrimSpace name \<noteq> []"
    and "TrimSpace f \<noteq> []" and "''..'' \<notin> set (comps f)"
  shows "Join name f = joinSep (name # comps f) \<and> TrimSpace (Join name f) \<noteq> []"
proof -
  have "f \<noteq> []" using assms(4) by auto
  then have j: "Join name f = joinSep (name # comps f)"
    using Join_plain[OF assms(1) _ assms(5,2)] by simp
  have "CHR ''/'' \<notin> set name" using assms(1) by (auto simp: okName_def)
  then show ?thesis using j TrimSpace_joinSep[OF _ assms(3), of "comps f"] by simp
qed

text \<open>
  Every path the project loop puts on the list is in canonical form, the form the
  properties of the reconciler below ask of the candidates.
\<close>

lemma collapse_set: "set (collapse rooted acc cs) \<subseteq> set acc \<union> set cs \<union> {''..''}"
proof (induction cs arbitrary: acc)
  case Nil
  then show ?case by auto
next
  case (Cons c cs)
  show ?case
  proof (cases "c = ''..''")
    case True
    show ?thesis
    proof (cases acc)
      case Nil
      with True Cons.IH[of "[]"] Cons.IH[of "[''..'']"] show ?thesis by (cases rooted) auto
    next
      case (Cons a acc')
      with True Cons.IH[of "''..'' # acc"] Cons.IH[of acc'] show ?thesis
        by (cases "a = ''..''") auto
    qed
  next
    case False
    with Cons.IH[of "c # acc"] show ?thesis by auto
  qed
qed

lemma canonical_Join:
  assumes "okName name" and "f \<noteq> []"
  shows "canonical (Join name f)"
proof -
  let ?cs = "collapse False [] (name # comps f)"
  have ne: "name \<noteq> []" and hd: "hd name \<noteq> CHR ''/''"
    using assms(1) by (auto simp: okName_def) (metis list.set_sel(1))
  have j: "Join name f = Rel ?cs"
    using ne hd assms(2) comps_prefixed[OF assms(1)] by (simp add: Join_def Clean_def)
  have "okName ''..''" by (simp add: okName_def)
  then have "\<forall>c \<in> set ?cs. okName c"
    using collapse_set[of False "[]" "name # comps f"] assms(1) okName_comps by auto
  then have "comps (Rel ?cs) = ?cs" by (rule comps_Rel)
  then show ?thesis using j by (simp add: canonical_def)
qed

lemma addProjectDir_canonical:
  assumes "okName name" and "\<forall>q \<in> set projectFiles. canonical q"
  shows "\<forall>q \<in> set (addProjectDir name includedFiles projectFiles). canonical q"
proof -
  have "canonical (Join name f)" if "TrimSpace f \<noteq> []" for f
  proof -
    have "f \<noteq> []" using that by auto
    then show ?thesis by (rule canonical_Join[OF assms(1)])
  qed
  then show ?thesis using assms(2) by (auto simp: addProjectDir_eq)
qed

lemma comps_notes [simp]: "comps ''app/notes.txt'' = [''app'', ''notes.txt'']"
  by (simp add: comps_def)

lemma comps_old [simp]: "comps ''app/old.txt'' = [''app'', ''old.txt'']"
  by (simp add: comps_def)

lemma comps_app [simp]: "comps ''app'' = [''app'']"
  by (simp add: comps_def)

section \<open>The comparison command in the copy/skip pass\<close>

text \<open>
  C10. When a candidate is in the backup file set, its source exists, and the external
  comparison command fails, \<^verbatim>\<open>copyStep\<close> only takes the path out of the backup file set:
  the backup tree, the standard output and the log of calls stay as they were. The
  failure is printed nowhere and the file is not copied, whatever its content.
\<close>

theorem diff_failure_is_skip:
  assumes "\<not> srcNotExist E p"
    and "p \<in> set (backedUpFileRelPaths s)"
    and "diffFails E p"
  shows "copyStep E p s = s\<lparr>backedUpFileRelPaths := removeAll p (backedUpFileRelPaths s)\<rparr>"
  using assms by (simp add: copyStep_def gitDiffNoIndex_def Let_def)

text \<open>
  The same at the example, where the source (\<^verbatim>\<open>a\<close>) and the backup (\<^verbatim>\<open>b\<close>) differ: the
  changed file is left as it is, and nothing is printed.
\<close>

theorem diff_failure_is_skip_witness:
  "\<not> srcNotExist (exEnv\<lparr>diffFails := (\<lambda>p. True)\<rparr>) ''app/notes.txt''
   \<and> ''app/notes.txt'' \<in> set (backedUpFileRelPaths exState)
   \<and> diffFails (exEnv\<lparr>diffFails := (\<lambda>p. True)\<rparr>) ''app/notes.txt''
   \<and> stat (projects exEnv) (comps ''app/notes.txt'') = Inr (File ''a'')
   \<and> stat (backupTree (copyStep (exEnv\<lparr>diffFails := (\<lambda>p. True)\<rparr>) ''app/notes.txt'' exState))
        (comps ''app/notes.txt'') = Inr (File ''b'')
   \<and> stdout (copyStep (exEnv\<lparr>diffFails := (\<lambda>p. True)\<rparr>) ''app/notes.txt'' exState) = []
   \<and> calls (copyStep (exEnv\<lparr>diffFails := (\<lambda>p. True)\<rparr>) ''app/notes.txt'' exState) = []"
proof -
  have a: "\<not> srcNotExist (exEnv\<lparr>diffFails := (\<lambda>p. True)\<rparr>) ''app/notes.txt''"
    by (simp add: srcNotExist_def exEnv_def exProjects_def)
  have b: "''app/notes.txt'' \<in> set (backedUpFileRelPaths exState)"
    by (simp add: exState_def)
  have c: "diffFails (exEnv\<lparr>diffFails := (\<lambda>p. True)\<rparr>) ''app/notes.txt''"
    by simp
  show ?thesis
    using a b c diff_failure_is_skip [OF a b c]
    by (simp add: exState_def exEnv_def exProjects_def exBackup_def)
qed

section \<open>A source that is missing below a regular file\<close>

text \<open>
  C1, at that input. The source \<^verbatim>\<open>app/a/b\<close> is not on disk: \<^verbatim>\<open>os.Stat\<close> fails with
  \<^verbatim>\<open>ENOTDIR\<close>, which \<^verbatim>\<open>os.IsNotExist\<close> does not count. The candidate is not skipped: it is
  taken out of the backup file set, the comparison finds no source and prints nothing,
  and the delete pass has nothing left to remove, so the stale \<^verbatim>\<open>app/a/b\<close> stays in the
  backup after the run.
\<close>

theorem missing_source_below_file_is_claimed:
  "stat (projects dirFileEnv) (comps ''app/a/b'') = Inl ENOTDIR
   \<and> backedUpFileRelPaths (initState dirFileEnv dirFileBackup) = [''app/a/b'']
   \<and> backedUpFileRelPaths (copyStep dirFileEnv ''app/a/b'' (initState dirFileEnv dirFileBackup)) = []
   \<and> calls (reconcile dirFileEnv [''app/a/b''] dirFileBackup) = [Remove ''app/a'', Remove ''app'']
   \<and> stat (backupTree (reconcile dirFileEnv [''app/a/b''] dirFileBackup)) (comps ''app/a/b'')
       = Inr (File ''old'')"
  by code_simp

section \<open>What the prune pass prints\<close>

text \<open>
  C3, at the scenario of the specification. After the copy and the delete the directory
  \<^verbatim>\<open>app\<close> still holds \<^verbatim>\<open>notes.txt\<close>; \<^verbatim>\<open>os.Remove\<close> fails with \<^verbatim>\<open>ENOTEMPTY\<close>, and the run
  prints that error. The error the test lets pass in silence is \<^verbatim>\<open>ENOENT\<close>: removing the
  directory \<^verbatim>\<open>gone\<close>, which the backup does not have, prints nothing.
\<close>

theorem prune_prints_directory_not_empty:
  "calls (reconcile exEnv [''app/notes.txt''] exBackup)
     = [CopyFile ''app/notes.txt'', Remove ''app/old.txt'', Remove ''app'']
   \<and> backupTree (reconcile exEnv [''app/notes.txt''] exBackup)
     = Dir [(''app'', Dir [(''notes.txt'', File ''a'')])]
   \<and> stdout (reconcile exEnv [''app/notes.txt''] exBackup) = [ErrLine ENOTEMPTY]
   \<and> fst (os_Remove (denied exEnv) exBackup (comps ''gone'')) = Some ENOENT
   \<and> stdout (pruneStep exEnv ''gone'' exState) = []"
  by code_simp

section \<open>Dry run and live run\<close>




section \<open>The delete pass\<close>

text \<open>
  C2. In a live run on a well-formed backup directory, with candidates in canonical
  form: the paths left in the backup file set after the copy/skip pass are the files of
  the snapshot that no candidate with a source claimed; the delete pass calls
  \<^verbatim>\<open>os.Remove\<close> on exactly these paths, once each, in the order the \<^verbatim>\<open>range\<close> takes them,
  whatever that order is and whether or not an earlier removal failed; it prints one error line per file that cannot be removed; every other file of
  the set is gone from the backup tree afterwards; and every regular file that is not in
  the set (a claimed one, a copied one) is still there with its bytes.
\<close>

theorem delete_pass_removes_the_unclaimed:
  assumes "wfTree t" and "isDir t" and "\<forall>q \<in> set projectFiles. canonical q" and "\<not> dryRun E"
  shows "set (backedUpFileRelPaths (copyPass E projectFiles (initState E t)))
       = set (snd (snapshot t)) - {p \<in> set projectFiles. \<not> srcNotExist E p}
   \<and> calls (deletePass E (copyPass E projectFiles (initState E t)))
       = calls (copyPass E projectFiles (initState E t))
         @ map Remove (permute (rangeSeed E)
             (backedUpFileRelPaths (copyPass E projectFiles (initState E t))))
   \<and> stdout (deletePass E (copyPass E projectFiles (initState E t)))
       = stdout (copyPass E projectFiles (initState E t))
         @ removeErrs E (permute (rangeSeed E)
             (backedUpFileRelPaths (copyPass E projectFiles (initState E t))))
   \<and> (\<forall>p \<in> set (backedUpFileRelPaths (copyPass E projectFiles (initState E t))).
         \<not> denied E (comps p) \<longrightarrow>
         isl (stat (backupTree (deletePass E (copyPass E projectFiles (initState E t)))) (comps p)))
   \<and> (\<forall>q c. stat (backupTree (copyPass E projectFiles (initState E t))) q = Inr (File c) \<longrightarrow>
         (q \<notin> comps ` set (backedUpFileRelPaths (copyPass E projectFiles (initState E t)))
           \<or> denied E q) \<longrightarrow>
         stat (backupTree (deletePass E (copyPass E projectFiles (initState E t)))) q = Inr (File c))"
proof -
  let ?Ed = "E\<lparr>dryRun := True\<rparr>"
  let ?s1 = "copyPass E projectFiles (initState E t)"
  let ?ord = "permute (rangeSeed E) (backedUpFileRelPaths ?s1)"
  have s0: "sim (initState ?Ed t) (initState E t)" using assms(1) by (rule sim_initState)
  have "sim (copyPass ?Ed projectFiles (initState ?Ed t)) ?s1"
    using sim_copyPass[OF _ assms(4) _ _ assms(3) s0] by simp
  then have wf1: "wfTree (backupTree ?s1)"
    and fl: "\<forall>p \<in> set (backedUpFileRelPaths ?s1). canonical p \<and>
        (\<exists>c. stat (backupTree ?s1) (comps p) = Inr (File c))"
    by (auto simp: sim_def)
  have i: "set (backedUpFileRelPaths ?s1)
       = set (snd (snapshot t)) - {p \<in> set projectFiles. \<not> srcNotExist E p}"
    by (simp add: copyPass_files)
  have "distinct (backedUpFileRelPaths ?s1)"
    by (intro copyPass_files_distinct) (simp add: snapshot_distinct)
  then have d: "distinct ?ord" by simp
  have nr: "\<forall>p \<in> set (backedUpFileRelPaths ?s1). comps p \<noteq> []"
    using i snapshot_file_nonroot[OF assms(1,2)] by auto
  have pre: "\<forall>p \<in> set ?ord. canonical p \<and> comps p \<noteq> [] \<and>
        (\<exists>c. stat (backupTree ?s1) (comps p) = Inr (File c))"
    using fl nr by simp
  note L = deleteLoop_live[OF assms(4) wf1 d pre, unfolded set_permute]
  have c: "calls (deletePass E ?s1) = calls ?s1 @ map Remove ?ord"
    using assms(4) by (simp add: deletePass_def deleteLoop_calls)
  show ?thesis using i c L unfolding deletePass_def by blast
qed

text \<open>
  With \<^verbatim>\<open>app/notes.txt\<close> as the only candidate: \<^verbatim>\<open>app/older.txt\<close> cannot be removed, the
  error is printed, and the pass goes on to remove \<^verbatim>\<open>app/old.txt\<close>.
\<close>

theorem delete_pass_removes_the_unclaimed_witness:
  "wfTree staleBackup \<and> isDir staleBackup \<and> canonical ''app/notes.txt'' \<and> \<not> dryRun deniedEnv
   \<and> backedUpFileRelPaths (copyPass deniedEnv [''app/notes.txt''] (initState deniedEnv staleBackup))
       = [''app/older.txt'', ''app/old.txt'']
   \<and> calls (deletePass deniedEnv (copyPass deniedEnv [''app/notes.txt''] (initState deniedEnv staleBackup)))
       = [CopyFile ''app/notes.txt'', Remove ''app/older.txt'', Remove ''app/old.txt'']
   \<and> stdout (deletePass deniedEnv (copyPass deniedEnv [''app/notes.txt''] (initState deniedEnv staleBackup)))
       = [ErrLine EACCES]
   \<and> isl (stat (backupTree (deletePass deniedEnv
         (copyPass deniedEnv [''app/notes.txt''] (initState deniedEnv staleBackup)))) (comps ''app/old.txt''))"
proof -
  let ?s1 = "copyPass deniedEnv [''app/notes.txt''] (initState deniedEnv staleBackup)"
  have w: "wfTree staleBackup" by code_simp
  have r: "isDir staleBackup" by code_simp
  have c': "canonical ''app/notes.txt''" by code_simp
  then have c: "\<forall>q \<in> set [''app/notes.txt'']. canonical q" by simp
  have l: "\<not> dryRun deniedEnv" by code_simp
  have f: "backedUpFileRelPaths ?s1 = [''app/older.txt'', ''app/old.txt'']" by code_simp
  have o: "stdout ?s1 = []" "calls ?s1 = [CopyFile ''app/notes.txt'']" by code_simp+
  have e: "removeErrs deniedEnv [''app/older.txt'', ''app/old.txt''] = [ErrLine EACCES]" by code_simp
  have nd: "\<not> denied deniedEnv (comps ''app/old.txt'')" by code_simp
  have sd: "permute (rangeSeed deniedEnv) (backedUpFileRelPaths ?s1) = backedUpFileRelPaths ?s1"
    by (simp add: deniedEnv_def)
  note T = delete_pass_removes_the_unclaimed [OF w r c l]
  from T have "calls (deletePass deniedEnv ?s1)
      = calls ?s1 @ map Remove (permute (rangeSeed deniedEnv) (backedUpFileRelPaths ?s1))"
    by blast
  then have "calls (deletePass deniedEnv ?s1) = calls ?s1 @ map Remove (backedUpFileRelPaths ?s1)"
    by (simp only: sd)
  then have A: "calls (deletePass deniedEnv ?s1)
      = [CopyFile ''app/notes.txt'', Remove ''app/older.txt'', Remove ''app/old.txt'']"
    using f o by simp
  from T have "stdout (deletePass deniedEnv ?s1)
       = stdout ?s1 @ removeErrs deniedEnv (permute (rangeSeed deniedEnv) (backedUpFileRelPaths ?s1))"
    by blast
  then have "stdout (deletePass deniedEnv ?s1)
       = stdout ?s1 @ removeErrs deniedEnv (backedUpFileRelPaths ?s1)"
    by (simp only: sd)
  then have B: "stdout (deletePass deniedEnv ?s1) = [ErrLine EACCES]"
    using f o e by simp
  from T have "\<forall>p \<in> set (backedUpFileRelPaths ?s1). \<not> denied deniedEnv (comps p) \<longrightarrow>
         isl (stat (backupTree (deletePass deniedEnv ?s1)) (comps p))" by blast
  then have C: "isl (stat (backupTree (deletePass deniedEnv ?s1)) (comps ''app/old.txt''))"
    using f nd by simp
  show ?thesis using w r c' l f A B C by blast
qed

section \<open>The directory sequence and the prune pass\<close>

text \<open>
  C6. For a well-formed backup directory: the directory sequence of the snapshot is the
  directories of the walk in visiting order, each as \<^verbatim>\<open>filepath.Rel\<close> gives it; the backup
  root is at index 0 and nowhere else; every other directory comes after its parent;
  the prune pass of a live run calls \<^verbatim>\<open>os.Remove\<close> on the sequence without its first
  entry, last entry first, and a dry run prunes nothing; and no \<^verbatim>\<open>os.Remove\<close> of a whole
  run, in the delete pass or in the prune pass, is on the backup root.
\<close>

theorem backup_root_first_and_never_removed:
  assumes "wfTree t" and "isDir t"
  shows "fst (snapshot t) = map Rel (walkDirs [] t)
    \<and> walkDirs [] t ! 0 = [] \<and> fst (snapshot t) ! 0 = ''.''
    \<and> (\<forall>i < length (walkDirs [] t). 0 < i \<longrightarrow>
          walkDirs [] t ! i \<noteq> [] \<and> (\<exists>j<i. walkDirs [] t ! j = butlast (walkDirs [] t ! i)))
    \<and> calls (prunePass E s) =
          calls s @ (if dryRun E then [] else map Remove (rev (tl (backedUpDirRelPaths s))))
    \<and> (\<forall>p. Remove p \<in> set (calls (reconcile E projectFiles t)) \<longrightarrow> comps p \<noteq> [])"
proof -
  let ?L = "walkDirs [] t"
  from assms(2) obtain es where t: "t = Dir es" by (cases t) (auto simp: isDir_def)
  have A: "fst (snapshot t) = map Rel ?L" by (rule snapshot_dirs)
  have B: "?L ! 0 = []" using t by simp
  have B': "fst (snapshot t) ! 0 = ''.''" using A t by (simp add: Rel_def)
  have C: "\<forall>i < length ?L. 0 < i \<longrightarrow> ?L ! i \<noteq> [] \<and> (\<exists>j<i. ?L ! j = butlast (?L ! i))"
  proof (intro allI impI)
    fix i assume i: "i < length ?L" "0 < i"
    then have "?L ! i \<in> set (tl ?L)"
      by (cases ?L; cases i) auto
    then have ne: "?L ! i \<noteq> []" using walkDirs_tl_nonroot[OF assms(1)] by blast
    with walkDirs_parent_first[OF i(1)] show "?L ! i \<noteq> [] \<and> (\<exists>j<i. ?L ! j = butlast (?L ! i))"
      by simp
  qed
  have D: "calls (prunePass E s) =
          calls s @ (if dryRun E then [] else map Remove (rev (tl (backedUpDirRelPaths s))))"
    by (rule prunePass_calls_any)
  have F: "comps p \<noteq> []" if "Remove p \<in> set (calls (reconcile E projectFiles t))" for p
  proof -
    let ?s1 = "copyPass E projectFiles (initState E t)"
    from that consider (c) "Remove p \<in> set (calls ?s1)"
      | (d) "p \<in> set (backedUpFileRelPaths ?s1)"
      | (r) "p \<in> set (tl (fst (snapshot t)))"
      by (auto simp: reconcile_def prunePass_calls_any deletePass_def deleteLoop_calls_any
               split: if_splits)
    then show ?thesis
    proof cases
      case c
      then show ?thesis using copyPass_calls_Remove[of p E projectFiles "initState E t"] by simp
    next
      case d
      then have "p \<in> set (snd (snapshot t))" by (simp add: copyPass_files)
      then show ?thesis using snapshot_file_nonroot[OF assms] by simp
    next
      case r
      then obtain cs where "p = Rel cs" "cs \<in> set (tl ?L)"
        by (auto simp: A map_tl[symmetric])
      then show ?thesis using walkDirs_tl_nonroot[OF assms(1)] comps_Rel[of cs] by auto
    qed
  qed
  show ?thesis using A B B' C D F by blast
qed

theorem backup_root_first_and_never_removed_witness:
  "wfTree nestedBackup \<and> isDir nestedBackup
   \<and> fst (snapshot nestedBackup) = [''.'', ''a'', ''a/b'', ''c'']
   \<and> walkDirs [] nestedBackup = [[], [''a''], [''a'', ''b''], [''c'']]
   \<and> fst (snapshot nestedBackup) ! 0 = ''.''
   \<and> calls (prunePass exEnv (initState exEnv nestedBackup))
       = [Remove ''c'', Remove ''a/b'', Remove ''a'']"
proof -
  have w: "wfTree nestedBackup" by code_simp
  have r: "isDir nestedBackup" by code_simp
  have d: "walkDirs [] nestedBackup = [[], [''a''], [''a'', ''b''], [''c'']]" by code_simp
  have m: "map Rel [[], [''a''], [''a'', ''b''], [''c'']] = [''.'', ''a'', ''a/b'', ''c'']"
    by code_simp
  have l: "\<not> dryRun exEnv" by code_simp
  note T = backup_root_first_and_never_removed [OF w r, of exEnv "initState exEnv nestedBackup"]
  from T have A: "fst (snapshot nestedBackup) = map Rel (walkDirs [] nestedBackup)" by blast
  then have A': "fst (snapshot nestedBackup) = [''.'', ''a'', ''a/b'', ''c'']" using d m by simp
  from T have B: "fst (snapshot nestedBackup) ! 0 = ''.''" by blast
  from T have "calls (prunePass exEnv (initState exEnv nestedBackup)) =
          calls (initState exEnv nestedBackup) @ (if dryRun exEnv then []
             else map Remove (rev (tl (backedUpDirRelPaths (initState exEnv nestedBackup)))))"
    by blast
  then have C: "calls (prunePass exEnv (initState exEnv nestedBackup))
       = [Remove ''c'', Remove ''a/b'', Remove ''a'']"
    using l A' by simp
  show ?thesis using w r A' d B C by blast
qed

section \<open>The unpushed-files query\<close>




section \<open>The entries of a project\<close>

text \<open>
  C7 as it is stated fails: the blank entries are dropped before \<^verbatim>\<open>filepath.Join\<close>, which
  cleans the path. With \<^verbatim>\<open>--force-include "../ "\<close> and a file named by one space beside the
  project, the entry \<^verbatim>\<open>../ \<close> is not blank and is joined to the one-space path.
\<close>

theorem blank_entry_counterexample:
  "listProjectFiles (\<lambda>n. cleanGit) ''origin'' [''../ ''] spaceDisk
     = Inr [''app/notes.txt'', '' '']
   \<and> TrimSpace '' '' = []"
  by code_simp

text \<open>
  C7, amended. What a project adds to the list is \<^verbatim>\<open>filepath.Join(name, e)\<close> for exactly the
  entries \<open>e\<close> of the union (untracked lines, unpushed lines, force-included paths) that
  are not blank, in order. \<^verbatim>\<open>filepath.Join\<close> cleans the path, so what is added is in general
  not the name, a separator and the entry. When the project's name is not blank and no
  entry of the union has a \<^verbatim>\<open>..\<close> component, each added path is the name and the components
  of the entry (\<open>comps\<close>: its parts between separators, the empty ones and the \<^verbatim>\<open>.\<close> ones
  left out), joined by single separators, and it is not blank.
\<close>

theorem project_files_are_joined_nonblank_entries:
  assumes "processProject g remoteBranch forced d name projectFiles = Inr out"
  shows "\<exists>ext. forceIncludeAll d name forced [] = Inr ext
     \<and> out = projectFiles @ map (Join name)
               (filter (\<lambda>f. TrimSpace f \<noteq> []) (unionOf g remoteBranch ext))
     \<and> (okName name \<and> name \<noteq> ''..'' \<and> TrimSpace name \<noteq> []
          \<and> (\<forall>f \<in> set (unionOf g remoteBranch ext). ''..'' \<notin> set (comps f))
        \<longrightarrow> (\<forall>f \<in> set (unionOf g remoteBranch ext). TrimSpace f \<noteq> [] \<longrightarrow>
               Join name f = joinSep (name # comps f) \<and> TrimSpace (Join name f) \<noteq> []))"
proof -
  from assms obtain included where inc: "projectIncluded g remoteBranch d name forced = Inr included"
    and out: "out = addProjectDir name included projectFiles"
    by (auto simp: processProject_def split: sum.splits)
  from projectIncluded_union[OF inc] obtain ext where
    ext: "forceIncludeAll d name forced [] = Inr ext" "included = unionOf g remoteBranch ext"
    by blast
  have "out = projectFiles @ map (Join name) (filter (\<lambda>f. TrimSpace f \<noteq> []) (unionOf g remoteBranch ext))"
    using out ext(2) by (simp add: addProjectDir_eq)
  then show ?thesis using ext(1) Join_not_blank by blast
qed

theorem project_files_are_joined_nonblank_entries_witness:
  "processProject cleanGit ''origin'' [''.git''] appDisk ''app'' []
     = Inr [''app/notes.txt'', ''app/.git/config'']
   \<and> forceIncludeAll appDisk ''app'' [''.git''] [] = Inr [''.git/config'']
   \<and> unionOf cleanGit ''origin'' [''.git/config''] = [''notes.txt'', [], [], ''.git/config'']
   \<and> Join ''app'' ''notes.txt'' = joinSep (''app'' # comps ''notes.txt'')
   \<and> TrimSpace (Join ''app'' ''notes.txt'') \<noteq> []"
proof -
  have a: "processProject cleanGit ''origin'' [''.git''] appDisk ''app'' []
     = Inr [''app/notes.txt'', ''app/.git/config'']" by code_simp
  have f: "forceIncludeAll appDisk ''app'' [''.git''] [] = Inr [''.git/config'']" by code_simp
  have u: "unionOf cleanGit ''origin'' [''.git/config''] = [''notes.txt'', [], [], ''.git/config'']"
    by code_simp
  have n: "okName ''app'' \<and> ''app'' \<noteq> ''..'' \<and> TrimSpace ''app'' \<noteq> []" by code_simp
  have d: "''..'' \<notin> set (comps ''notes.txt'') \<and> ''..'' \<notin> set (comps [])
           \<and> ''..'' \<notin> set (comps ''.git/config'')" by code_simp
  have t: "TrimSpace ''notes.txt'' \<noteq> []" by code_simp
  from project_files_are_joined_nonblank_entries [OF a] f
  have imp: "okName ''app'' \<and> ''app'' \<noteq> ''..'' \<and> TrimSpace ''app'' \<noteq> []
          \<and> (\<forall>f \<in> set (unionOf cleanGit ''origin'' [''.git/config'']). ''..'' \<notin> set (comps f))
        \<longrightarrow> (\<forall>f \<in> set (unionOf cleanGit ''origin'' [''.git/config'']). TrimSpace f \<noteq> [] \<longrightarrow>
               Join ''app'' f = joinSep (''app'' # comps f) \<and> TrimSpace (Join ''app'' f) \<noteq> [])"
    by auto
  have prem: "okName ''app'' \<and> ''app'' \<noteq> ''..'' \<and> TrimSpace ''app'' \<noteq> []
          \<and> (\<forall>f \<in> set (unionOf cleanGit ''origin'' [''.git/config'']). ''..'' \<notin> set (comps f))"
    using n d by (simp add: u)
  have mem: "''notes.txt'' \<in> set (unionOf cleanGit ''origin'' [''.git/config''])"
    by (simp add: u)
  from imp prem have "\<forall>f \<in> set (unionOf cleanGit ''origin'' [''.git/config'']). TrimSpace f \<noteq> [] \<longrightarrow>
               Join ''app'' f = joinSep (''app'' # comps f) \<and> TrimSpace (Join ''app'' f) \<noteq> []"
    by blast
  with mem t have "Join ''app'' ''notes.txt'' = joinSep (''app'' # comps ''notes.txt'')
      \<and> TrimSpace (Join ''app'' ''notes.txt'') \<noteq> []"
    by blast
  then show ?thesis using a f u by blast
qed

section \<open>A force-included path below a regular file\<close>

text \<open>
  C8, at a linked worktree, where \<^verbatim>\<open>.git\<close> is a regular file. \<^verbatim>\<open>.git/config\<close> does not exist
  in that project; \<^verbatim>\<open>os.Stat\<close> fails with \<^verbatim>\<open>ENOTDIR\<close>, \<^verbatim>\<open>os.IsNotExist\<close> does not count it, and
  \<^verbatim>\<open>panicIf\<close> ends the run. In a plain repository the same entry is included as it is, the
  directory \<^verbatim>\<open>.git\<close> gives the regular files below it, and an entry that is missing with
  \<^verbatim>\<open>ENOENT\<close> is passed over.
\<close>

theorem force_include_below_file_panics:
  "stat (fsRoot worktreeDisk) (forceIncludedPathOf worktreeDisk ''app'' ''.git/config'') = Inl ENOTDIR
   \<and> forceInclude worktreeDisk ''app'' ''.git/config'' [] = Inl (PanicStat ENOTDIR)
   \<and> listProjectFiles (\<lambda>n. cleanGit) ''origin'' [''.git/config''] worktreeDisk
       = Inl (PanicStat ENOTDIR)
   \<and> listProjectFiles (\<lambda>n. cleanGit) ''origin'' [''.git/config''] appDisk
       = Inr [''app/notes.txt'', ''app/.git/config'']
   \<and> listProjectFiles (\<lambda>n. cleanGit) ''origin'' [''.git''] appDisk
       = Inr [''app/notes.txt'', ''app/.git/config'']
   \<and> listProjectFiles (\<lambda>n. cleanGit) ''origin'' [''nothing''] appDisk
       = Inr [''app/notes.txt'']"
  by code_simp

section \<open>A second run\<close>

text \<open>
  C9, with \<^verbatim>\<open>notes.txt\<close> both untracked and force-included: the candidate list holds
  \<^verbatim>\<open>app/notes.txt\<close> twice. The first run leaves a backup equal to the source. In the second
  run the first occurrence takes the path out of the backup file set and finds no
  difference; the second occurrence no longer finds the path in the set and copies the
  file again.
\<close>

theorem second_run_copies_a_duplicate_candidate:
  "listProjectFiles (\<lambda>n. cleanGit) ''origin'' [''notes.txt''] appDisk
     = Inr [''app/notes.txt'', ''app/notes.txt'']
   \<and> backupTree (reconcile appEnv [''app/notes.txt'', ''app/notes.txt''] (Dir [])) = appBackedUp
   \<and> gitDiffNoIndex appEnv appBackedUp ''app/notes.txt'' = []
   \<and> calls (reconcile appEnv [''app/notes.txt'', ''app/notes.txt''] appBackedUp)
       = [CopyFile ''app/notes.txt'', Remove ''app'']
   \<and> backupTree (reconcile appEnv [''app/notes.txt'', ''app/notes.txt''] appBackedUp) = appBackedUp"
  by code_simp

end
